theory Spec2Isabelle
  imports Complex_Main "HOL-Library.Word" "HOL-Library.Signed_Division"
begin

unbundle bit_operations_syntax

section \<open>The data of shell.c\<close>

text \<open>
  The two structs of the program. A command is a list of words; the terminating NULL
  pointer of each argument vector is not stored, but \<open>num_words_arr\<close> counts it, as the
  source does (the line \<open>exit\<close> has the count 2).
\<close>

record Command =
  list :: "string list list"
  num_words_arr :: "int list"
  num_commands :: int
  is_valid :: bool

text \<open>
  The fields \<open>user\<close> and \<open>sys\<close> are C floats; they are kept as exact quotients, the
  rounding of single precision is outside this development.
\<close>

record Stats =
  pid :: int
  cmd :: string
  state :: char
  ppid :: int
  user :: real
  sys :: real
  excode :: int
  vctx :: int
  nvctx :: int
  exsig :: string

text \<open>The two formats of \<open>PrintStatistics\<close>, with the values printed in each.\<close>

datatype report_line =
    Excode_line int string char int int real real int int
  | Exsig_line int string char string int real real int int

text \<open>
  The library and system calls the program makes, with the arguments it passes and, where
  the program's later behaviour depends on it, what the call returned.
\<close>

datatype action =
    Sigprocmask_block "int list"
  | Sigaction int
  | Prompt
  | Fgets nat "string option"
  | Printf string
  | Pipe nat "(int \<times> int) option"
  | Fork nat int
  | Kill int int
  | Dup2 int int
  | Close int
  | Sigsuspend "int set"
  | Execvp string "string list"
  | Fprintf_stderr string
  | Exit_call int
  | Waitid_child int
  | Waitid_eintr
  | Waitid_fail
  | Fopen string bool
  | Waitpid int
  | Report report_line
  | Free_all

text \<open>
  The global variables. Two more components stand for what the process can observe of
  its surroundings: \<open>stdin\<close>, the characters of standard input not read yet, and \<open>trace\<close>,
  the calls made so far, oldest first.
\<close>

record shell =
  command :: Command
  stats :: "Stats list"
  is_waiting_input :: bool
  sigint_received :: bool
  num_returns :: int
  pfd :: "(int \<times> int) list"
  children_pids :: "int list"
  stdin :: string
  trace :: "action list"

text \<open>How a function of the program ends: it returns, it calls \<open>exit\<close>, or it reads or
  writes outside an array (which C leaves undefined).\<close>

datatype 'a res = Ok 'a | Exit int shell | Fault

text \<open>Constants of the platform headers (Linux).\<close>

definition SIGINT :: int where "SIGINT = 2"

definition SIGUSR1 :: int where "SIGUSR1 = 10"

definition EXIT_FAILURE :: int where "EXIT_FAILURE = 1"

text \<open>
  The wait-status macros of \<open>sys/wait.h\<close>, as glibc defines them:
  \<^verbatim>\<open>WTERMSIG(s) = s & 0x7f\<close> and
  \<^verbatim>\<open>WIFSIGNALED(s) = ((signed char) ((s & 0x7f) + 1) >> 1) > 0\<close>.
\<close>

definition WTERMSIG :: "int \<Rightarrow> int" where
  "WTERMSIG status = status AND 0x7f"

definition WIFSIGNALED :: "int \<Rightarrow> bool" where
  "WIFSIGNALED status =
     (0 < drop_bit 1 (sint (word_of_int ((status AND 0x7f) + 1) :: 8 word)))"

text \<open>What one file of the process-information directory yields to the program.\<close>

record proc_stat =
  f_pid :: int
  f_comm :: string
  f_state :: char
  f_ppid :: int
  f_utime :: nat
  f_stime :: nat
  f_exit_code :: int

text \<open>
  One completed call of \<open>waitid\<close> that reports a child, with everything the program then
  reads about that child: the \<open>stat\<close> file as \<open>fscanf\<close> splits it (\<open>None\<close> when \<open>fopen\<close>
  fails), the \<open>status\<close> file as its lines with a colon, each a key and the number \<open>atoi\<close>
  reads after it, the values the two uninitialised locals \<open>vctx\<close> and \<open>nvctx\<close> hold when no
  line sets them, and the status word \<open>waitpid\<close> stores.
\<close>

record child_report =
  si_pid :: int
  stat_file :: "proc_stat option"
  status_file :: "(string \<times> int) list option"
  uninit_ctx :: "int \<times> int"
  wstatus :: int

datatype wait_ev = Eintr int | Child child_report

text \<open>
  Everything outside the program that one turn of the loop of \<open>RunShell\<close> meets:
  the signals whose handler runs while the shell is in its input phase, whether the read
  of \<open>fgets\<close> is cut short by one of them (it then stores nothing and consumes nothing),
  the bytes the uninitialised buffer \<open>input_str\<close> holds when \<open>fgets\<close> stores nothing, the
  result of each \<open>pipe\<close> and \<open>fork\<close> by loop index, whether \<open>execvp\<close> succeeds for a stage,
  the results of \<open>waitid\<close> before the first one that is neither a child nor \<open>EINTR\<close>, and
  the library's \<open>strsignal\<close> and \<open>sysconf(_SC_CLK_TCK)\<close>.
\<close>

record world =
  sigs :: "int list"
  eintr :: bool
  stale :: string
  pipe_res :: "nat \<Rightarrow> (int \<times> int) option"
  fork_res :: "nat \<Rightarrow> int"
  exec_ok :: "nat \<Rightarrow> bool"
  wait_res :: "wait_ev list"
  strsignal :: "int \<Rightarrow> string"
  clk_tck :: int

text \<open>
  The tokenizer, \<open>CountByDelimiter\<close> and \<open>ParseInputToCommandList\<close>, is a parameter of
  this development: the first function gives the count, the validity it stores in
  \<open>command.is_valid\<close> and the lines it prints; the second gives the command it leaves and
  the lines printed on the way. Neither touches any other variable. Every statement below
  holds for whatever the two compute.
\<close>

type_synonym tokenizer =
  "(string \<Rightarrow> char \<Rightarrow> int \<times> bool \<times> string list) \<times>
   (string \<Rightarrow> Command \<Rightarrow> Command \<times> string list)"

section \<open>Start-up and signal handling\<close>

definition emit :: "action \<Rightarrow> shell \<Rightarrow> shell" where
  "emit a st = st\<lparr>trace := trace st @ [a]\<rparr>"

definition emits :: "action list \<Rightarrow> shell \<Rightarrow> shell" where
  "emits as st = st\<lparr>trace := trace st @ as\<rparr>"

definition zero_stats :: Stats where
  "zero_stats = \<lparr>pid = 0, cmd = [], state = CHR 0x00, ppid = 0, user = 0, sys = 0,
     excode = 0, vctx = 0, nvctx = 0, exsig = []\<rparr>"

text \<open>The zero-initialised globals at program start, before \<open>main\<close> runs.\<close>

definition shell0 :: "string \<Rightarrow> shell" where
  "shell0 input =
     \<lparr>command = \<lparr>list = [], num_words_arr = [], num_commands = 0, is_valid = False\<rparr>,
      stats = replicate 5 zero_stats,
      is_waiting_input = False,
      sigint_received = False,
      num_returns = 0,
      pfd = replicate 4 (0, 0),
      children_pids = replicate 5 0,
      stdin = input,
      trace = []\<rparr>"

definition InstallHandler :: "shell \<Rightarrow> shell" where
  "InstallHandler st =
     emit (Sigaction SIGUSR1) (emit (Sigaction SIGINT) (emit (Sigprocmask_block [SIGUSR1]) st))"

definition SignalHandler :: "int \<Rightarrow> shell \<Rightarrow> shell" where
  "SignalHandler sig_num st =
     (if sig_num = SIGINT then
        (if is_waiting_input st then st\<lparr>sigint_received := True\<rparr> else st)
      else if sig_num = SIGUSR1 then st
      else st)"

section \<open>Reading a line\<close>

text \<open>
  The C library's \<open>fgets(buf, size, stream)\<close>: it stores at most \<open>size - 1\<close> characters and
  stops after a newline; it returns NULL when the stream is at its end.
\<close>

fun fgets_chars :: "nat \<Rightarrow> string \<Rightarrow> string \<times> string" where
  "fgets_chars 0 s = ([], s)"
| "fgets_chars (Suc k) [] = ([], [])"
| "fgets_chars (Suc k) (c # s) =
     (if c = CHR 0x0A then ([c], s)
      else (case fgets_chars k s of (l, r) \<Rightarrow> (c # l, r)))"

definition fgets :: "nat \<Rightarrow> string \<Rightarrow> string option \<times> string" where
  "fgets n s =
     (case fgets_chars (n - 1) s of (l, r) \<Rightarrow> (if s = [] then None else Some l, r))"

definition set_valid :: "bool \<Rightarrow> shell \<Rightarrow> shell" where
  "set_valid b st = st\<lparr>command := (command st)\<lparr>is_valid := b\<rparr>\<rparr>"

text \<open>Lines 261 to 270 of \<open>GetInputCommands\<close>: counting and parsing the line read.\<close>

definition tokenize :: "tokenizer \<Rightarrow> string \<Rightarrow> shell \<Rightarrow> shell" where
  "tokenize tok input_str st =
     (case fst tok input_str (CHR ''|'') of (n, v, out) \<Rightarrow>
        let st1 = emits (map Printf out)
                    (st\<lparr>command := (command st)\<lparr>num_commands := n, is_valid := v\<rparr>\<rparr>)
        in if \<not> is_valid (command st1) then st1
           else (case snd tok input_str (command st1) of (c, out') \<Rightarrow>
                   (emits (map Printf out') (st1\<lparr>command := c\<rparr>))
                     \<lparr>is_waiting_input := False\<rparr>))"

text \<open>The call of \<open>fgets\<close> with the buffer of 1025 bytes: what it returns and what is left
  of the stream.\<close>

definition read_line :: "world \<Rightarrow> string \<Rightarrow> string option \<times> string" where
  "read_line W s = (if eintr W then (None, s) else fgets 1025 s)"

definition GetInputCommands :: "tokenizer \<Rightarrow> world \<Rightarrow> shell \<Rightarrow> shell" where
  "GetInputCommands tok W st =
     (let st1 = emit Prompt (st\<lparr>is_waiting_input := True\<rparr>);
          st2 = foldl (\<lambda>s sig_num. SignalHandler sig_num s) st1 (sigs W);
          rd = read_line W (stdin st2);
          input_str = (case fst rd of None \<Rightarrow> stale W | Some l \<Rightarrow> l);
          st3 = emit (Fgets 1025 (fst rd)) (st2\<lparr>stdin := snd rd\<rparr>)
      in if sigint_received st3 then
           (set_valid False st3)\<lparr>sigint_received := False\<rparr>
         else tokenize tok input_str st3)"

section \<open>Checking the command\<close>

definition CheckExceptions :: "shell \<Rightarrow> (bool \<times> shell) res" where
  "CheckExceptions st =
     (if \<not> is_valid (command st) then Ok (True, st)
      else if num_commands (command st) > 5 then
        Ok (True, emit (Printf ''Shell: The maximum allowed number of commands is 5'') st)
      else
        (case list (command st) of
           (w # ws) # cs \<Rightarrow>
             if w = ''exit'' then
               (case num_words_arr (command st) of
                  [] \<Rightarrow> Fault
                | k # ks \<Rightarrow>
                    if k = 2 then Exit 0 (emit (Printf ''Shell: Terminated'') st)
                    else Ok (True, emit (Printf (''Shell: '' @ [CHR 0x22] @ ''exit'' @ [CHR 0x22]
                                       @ '' with other arguments!!!'')) st))
             else Ok (False, st)
         | _ \<Rightarrow> Fault))"

section \<open>Launching the pipeline\<close>

text \<open>
  \<open>CheckExceptions\<close> lets at most five stages through, which keeps every index below
  inside \<open>pfd\<close> (4 pairs), \<open>children_pids\<close> (5 entries) and \<open>stats\<close> (5 records). The result
  of no call is examined by the source, so a failed \<open>pipe\<close> leaves the pair as it was and
  a failed \<open>fork\<close> stores its \<open>-1\<close>.
\<close>

text \<open>
  \<open>ExecuteCommands\<close>, lines 129 to 201. One turn of its first loop, \<open>pipe(pfd[i])\<close>, and
  one turn of its second loop as the controller sees it: \<open>fork\<close> returns, and the value
  is stored in \<open>children_pids[cmd_idx]\<close>.
\<close>

definition pipe_step :: "world \<Rightarrow> nat \<Rightarrow> shell \<Rightarrow> shell" where
  "pipe_step W i st =
     (case pipe_res W i of
        None \<Rightarrow> emit (Pipe i None) st
      | Some rw \<Rightarrow> emit (Pipe i (Some rw)) (st\<lparr>pfd := (pfd st)[i := rw]\<rparr>))"

definition fork_step :: "world \<Rightarrow> nat \<Rightarrow> shell \<Rightarrow> shell" where
  "fork_step W cmd_idx st =
     emit (Fork cmd_idx (fork_res W cmd_idx))
       (st\<lparr>children_pids := (children_pids st)[cmd_idx := fork_res W cmd_idx]\<rparr>)"

text \<open>The controller's side of \<open>ExecuteCommands\<close>: both loops, in order.\<close>

definition ExecuteCommands :: "world \<Rightarrow> shell \<Rightarrow> shell" where
  "ExecuteCommands W st =
     (let n = num_commands (command st);
          st1 = fold (pipe_step W) [0..<nat (n - 1)] st
      in fold (fork_step W) [0..<nat n] st1)"

text \<open>
  The child's side, lines 142 to 196: what the process created by the \<open>fork\<close> for
  \<open>cmd_idx\<close> does, on its copy \<open>st\<close> of the controller's memory, from the return of
  \<open>fork\<close> to the end of the branch. The three branches of the source end in the same
  closing loop, \<open>close_pipes\<close>. The mask given to \<open>sigsuspend\<close> is the full set without
  \<open>SIGUSR1\<close>. When \<open>execvp\<close> returns, the child prints the error and exits with
  \<open>EXIT_FAILURE\<close>.
\<close>

definition close_pipes :: "shell \<Rightarrow> action list" where
  "close_pipes st =
     concat (map (\<lambda>i. [Close (fst (pfd st ! i)), Close (snd (pfd st ! i))])
               [0..<nat (num_commands (command st) - 1)])"

definition child_setup :: "nat \<Rightarrow> shell \<Rightarrow> action list" where
  "child_setup cmd_idx st =
     (if num_commands (command st) > 1 then
        (if cmd_idx = 0 then
           Dup2 (snd (pfd st ! 0)) 1 # close_pipes st
         else if int cmd_idx = num_commands (command st) - 1 then
           Dup2 (fst (pfd st ! (cmd_idx - 1))) 0 # close_pipes st
         else
           Dup2 (fst (pfd st ! (cmd_idx - 1))) 0 # Dup2 (snd (pfd st ! cmd_idx)) 1
             # close_pipes st)
      else [])"

definition child_body :: "world \<Rightarrow> nat \<Rightarrow> shell \<Rightarrow> action list" where
  "child_body W cmd_idx st =
     child_setup cmd_idx st
     @ [Sigsuspend (UNIV - {SIGUSR1}),
        Execvp (hd (list (command st) ! cmd_idx)) (list (command st) ! cmd_idx)]
     @ (if exec_ok W cmd_idx then []
        else [Fprintf_stderr (hd (list (command st) ! cmd_idx)), Exit_call EXIT_FAILURE])"

text \<open>The two loops of \<open>RunShell\<close> that follow \<open>ExecuteCommands\<close>, lines 93 to 96 and
  98 to 103: a \<open>kill\<close> with \<open>SIGUSR1\<close> for each recorded child, then both ends of each
  channel closed.\<close>

definition send_release :: "shell \<Rightarrow> shell" where
  "send_release st =
     fold (\<lambda>i s. emit (Kill (children_pids s ! i) SIGUSR1) s)
       [0..<nat (num_commands (command st))] st"

definition close_all :: "shell \<Rightarrow> shell" where
  "close_all st =
     fold (\<lambda>i s. emit (Close (snd (pfd s ! i))) (emit (Close (fst (pfd s ! i))) s))
       [0..<nat (num_commands (command st) - 1)] st"

text \<open>The calls of the controller in one launch: the part of the trace that
  \<open>ExecuteCommands\<close> and the two loops after it add.\<close>

definition launch_prog :: "world \<Rightarrow> shell \<Rightarrow> action list" where
  "launch_prog W st =
     drop (length (trace st)) (trace (close_all (send_release (ExecuteCommands W st))))"

section \<open>Collecting the children\<close>

text \<open>
  The two readers and the reap. A slot outside \<open>stats\<close> is a write outside the array.
  Printed lines are given without their newline, and the message of a failed \<open>fopen\<close>
  without the process identity. \<open>waitpid\<close> is taken to return the status of the child.
\<close>

definition SaveStatisticsFromStat :: "world \<Rightarrow> child_report \<Rightarrow> nat \<Rightarrow> shell \<Rightarrow> shell res" where
  "SaveStatisticsFromStat W c stat_idx st =
     (case stat_file c of
        None \<Rightarrow>
          Exit 0 (emit (Printf ''Error opening proc/stat file'')
                    (emit (Fopen ''stat'' False) st))
      | Some f \<Rightarrow>
          let cmd_substr = take (length (f_comm f) - 2) (tl (f_comm f));
              stat = \<lparr>pid = f_pid f, cmd = cmd_substr, state = f_state f, ppid = f_ppid f,
                      user = real (f_utime f) / real_of_int (clk_tck W),
                      sys = real (f_stime f) / real_of_int (clk_tck W),
                      excode = f_exit_code f sdiv 256,
                      vctx = 0, nvctx = 0, exsig = []\<rparr>
          in if stat_idx < length (stats st)
             then Ok ((emit (Fopen ''stat'' True) st)\<lparr>stats := (stats st)[stat_idx := stat]\<rparr>)
             else Fault)"

fun scan_status :: "(string \<times> int) list \<Rightarrow> int \<times> int \<Rightarrow> int \<times> int" where
  "scan_status [] acc = acc"
| "scan_status ((key, v) # ls) (vc, nvc) =
     (if key \<noteq> ''voluntary_ctxt_switches'' \<and> key \<noteq> ''nonvoluntary_ctxt_switches''
      then scan_status ls (vc, nvc)
      else if key = ''voluntary_ctxt_switches'' then scan_status ls (v, nvc)
      else scan_status ls (vc, v))"

definition SaveStatisticsFromStatus :: "child_report \<Rightarrow> nat \<Rightarrow> shell \<Rightarrow> shell res" where
  "SaveStatisticsFromStatus c stat_idx st =
     (case status_file c of
        None \<Rightarrow>
          Exit 0 (emit (Printf ''Error opening proc/status file'')
                    (emit (Fopen ''status'' False) st))
      | Some ls \<Rightarrow>
          (case scan_status ls (uninit_ctx c) of (vc, nvc) \<Rightarrow>
             if stat_idx < length (stats st)
             then Ok ((emit (Fopen ''status'' True) st)
                        \<lparr>stats := (stats st)[stat_idx := (stats st ! stat_idx)\<lparr>vctx := vc, nvctx := nvc\<rparr>]\<rparr>)
             else Fault))"

definition SaveAndTerminateChild :: "world \<Rightarrow> child_report \<Rightarrow> nat \<Rightarrow> shell \<Rightarrow> shell res" where
  "SaveAndTerminateChild W c stat_idx st =
     (case SaveStatisticsFromStat W c stat_idx st of
        Exit e s \<Rightarrow> Exit e s
      | Fault \<Rightarrow> Fault
      | Ok st1 \<Rightarrow>
          (case SaveStatisticsFromStatus c stat_idx st1 of
             Exit e s \<Rightarrow> Exit e s
           | Fault \<Rightarrow> Fault
           | Ok st2 \<Rightarrow>
               let st3 = emit (Waitpid (si_pid c)) st2
               in if WIFSIGNALED (wstatus c) then
                    Ok (st3\<lparr>stats := (stats st3)[stat_idx :=
                          (stats st3 ! stat_idx)\<lparr>exsig := strsignal W (WTERMSIG (wstatus c))\<rparr>]\<rparr>)
                  else Ok st3))"

text \<open>
  The waiting loop of \<open>RunShell\<close>, lines 107 to 117, around
  \<^verbatim>\<open>waitid(P_ALL, 0, &info, WNOWAIT | WEXITED | WSTOPPED)\<close>. The list holds the results
  that keep the loop going, a reported child or \<open>EINTR\<close>; the call after the last of
  them fails with another error and ends the loop. An interrupted call means that a
  handler has run. The second argument is \<open>ret_order\<close>.
\<close>

fun collect :: "world \<Rightarrow> wait_ev list \<Rightarrow> nat \<Rightarrow> shell \<Rightarrow> (nat \<times> shell) res" where
  "collect W [] ret_order st = Ok (ret_order, emit Waitid_fail st)"
| "collect W (Eintr sig_num # es) ret_order st =
     collect W es ret_order (emit Waitid_eintr (SignalHandler sig_num st))"
| "collect W (Child c # es) ret_order st =
     (case SaveAndTerminateChild W c ret_order (emit (Waitid_child (si_pid c)) st) of
        Ok st' \<Rightarrow> collect W es (Suc ret_order) st'
      | Exit e s \<Rightarrow> Exit e s
      | Fault \<Rightarrow> Fault)"

section \<open>The report\<close>

text \<open>\<open>PrintStatistics\<close>, lines 566 to 590: one turn of its loop, and the loop.\<close>

definition print_one :: "nat \<Rightarrow> shell \<Rightarrow> shell" where
  "print_one i st =
     (let s = stats st ! i in
      if excode s = 1 \<and> length (exsig s) = 0 then st
      else if length (exsig s) = 0 then
        emit (Report (Excode_line (pid s) (cmd s) (state s) (excode s) (ppid s)
                        (user s) (sys s) (vctx s) (nvctx s))) st
      else
        emit (Report (Exsig_line (pid s) (cmd s) (state s) (exsig s) (ppid s)
                        (user s) (sys s) (vctx s) (nvctx s))) st)"

definition PrintStatistics :: "shell \<Rightarrow> shell" where
  "PrintStatistics st = fold print_one [0..<nat (num_commands (command st))] st"

definition FreeMemories :: "shell \<Rightarrow> shell" where
  "FreeMemories st = emit Free_all st"

section \<open>The loop of RunShell\<close>

text \<open>Lines 89 to 121: what one turn does once \<open>CheckExceptions\<close> has returned false.\<close>

definition RunShell_body :: "world \<Rightarrow> shell \<Rightarrow> shell res" where
  "RunShell_body W st =
     (case collect W (wait_res W) 0 (close_all (send_release (ExecuteCommands W st))) of
        Ok (ret_order, st') \<Rightarrow>
          Ok (FreeMemories (if ret_order \<noteq> 0 then PrintStatistics st' else st'))
      | Exit e s \<Rightarrow> Exit e s
      | Fault \<Rightarrow> Fault)"

text \<open>Lines 85 to 121: one turn from \<open>CheckExceptions\<close> on, for the command that
  \<open>GetInputCommands\<close> has left.\<close>

definition run_cycle :: "world \<Rightarrow> shell \<Rightarrow> shell res" where
  "run_cycle W st =
     (case CheckExceptions st of
        Ok (True, st') \<Rightarrow> Ok st'
      | Ok (False, st') \<Rightarrow> RunShell_body W st'
      | Exit e s \<Rightarrow> Exit e s
      | Fault \<Rightarrow> Fault)"

definition RunShell_iter :: "tokenizer \<Rightarrow> world \<Rightarrow> shell \<Rightarrow> shell res" where
  "RunShell_iter tok W st = run_cycle W (GetInputCommands tok W st)"

text \<open>The loop never ends by itself; the list gives the turns that are looked at.\<close>

fun RunShell :: "tokenizer \<Rightarrow> world list \<Rightarrow> shell \<Rightarrow> shell res" where
  "RunShell tok [] st = Ok st"
| "RunShell tok (W # Ws) st =
     (case RunShell_iter tok W st of
        Ok st' \<Rightarrow> RunShell tok Ws st'
      | Exit e s \<Rightarrow> Exit e s
      | Fault \<Rightarrow> Fault)"

definition main :: "tokenizer \<Rightarrow> world list \<Rightarrow> string \<Rightarrow> shell res" where
  "main tok Ws input = RunShell tok Ws (InstallHandler (shell0 input))"

section \<open>Descriptor tables\<close>

text \<open>
  What a descriptor refers to: a stream the shell was started with, or one end of the
  channel made by the call of \<open>pipe\<close> for \<open>pfd[i]\<close> in this turn. The table of a process
  changes with its calls as the kernel defines them: \<open>pipe\<close> enters the two ends under
  the descriptors it returns, \<open>dup2\<close> makes the new descriptor refer to what the old one
  refers to (and does nothing when the old one is not open), \<open>close\<close> removes the entry.
  A child starts with a copy of the table the controller has at the \<open>fork\<close>.
\<close>

datatype fobj = Inherited int | Chan_read nat | Chan_write nat

type_synonym fdtable = "int \<Rightarrow> fobj option"

fun fd_effect :: "action \<Rightarrow> fdtable \<Rightarrow> fdtable" where
  "fd_effect (Pipe i (Some (r, w))) T = (T(r \<mapsto> Chan_read i))(w \<mapsto> Chan_write i)"
| "fd_effect (Dup2 old new) T = (case T old of None \<Rightarrow> T | Some f \<Rightarrow> T(new \<mapsto> f))"
| "fd_effect (Close fd) T = T(fd := None)"
| "fd_effect a T = T"

definition fd_run :: "action list \<Rightarrow> fdtable \<Rightarrow> fdtable" where
  "fd_run as T = fold fd_effect as T"

text \<open>The table of the child for stage \<open>cmd_idx\<close> when it reaches \<open>sigsuspend\<close>: the
  controller's table after its calls of \<open>pipe\<close> (the calls of \<open>fork\<close> leave it as it is),
  then the child's own calls. The child's copy of \<open>pfd\<close> and \<open>command\<close> is the one
  \<open>ExecuteCommands\<close> ends with, since the loop of forks changes neither.\<close>

definition stage_table :: "world \<Rightarrow> shell \<Rightarrow> fdtable \<Rightarrow> nat \<Rightarrow> fdtable" where
  "stage_table W st T0 cmd_idx =
     fd_run (child_setup cmd_idx (ExecuteCommands W st))
       (fd_run (drop (length (trace st)) (trace (ExecuteCommands W st))) T0)"

definition controller_table :: "world \<Rightarrow> shell \<Rightarrow> fdtable \<Rightarrow> fdtable" where
  "controller_table W st T0 = fd_run (launch_prog W st) T0"

text \<open>
  The descriptors of the first \<open>m\<close> channels, in the order of their creation.
\<close>

definition pipe_fds :: "(nat \<Rightarrow> int) \<Rightarrow> (nat \<Rightarrow> int) \<Rightarrow> nat \<Rightarrow> int list" where
  "pipe_fds r w m = concat (map (\<lambda>i. [r i, w i]) [0..<m])"

section \<open>Processes side by side\<close>

text \<open>
  The controller and its children run side by side. Each process has the calls it still
  has to make and those it has made; for the signal \<open>SIGUSR1\<close> it has a pending flag and
  its signal mask. A schedule says which process makes the next move. The kernel's part
  is this: \<open>fork\<close> creates a child with the mask of its parent and nothing pending, which
  starts the branch of the source for its stage; \<open>kill\<close> makes the signal pending in the
  process addressed (in all of them for an identity that is not positive); a pending
  signal that is not blocked is delivered to the (empty) handler before the next call;
  \<open>sigsuspend\<close> returns only when a signal outside the mask it is given is pending,
  which it then delivers.
\<close>

record proc =
  prog :: "action list"
  made :: "action list"
  pending :: bool
  blocked :: bool

record sys =
  ctl :: proc
  kids :: "(int \<times> proc) list"

datatype who = Controller | Stage int

fun mask_effect :: "action \<Rightarrow> int set \<Rightarrow> int set" where
  "mask_effect (Sigprocmask_block xs) M = M \<union> set xs"
| "mask_effect a M = M"

definition sig_mask :: "action list \<Rightarrow> int set" where
  "sig_mask as = fold mask_effect as {}"

fun call :: "proc \<Rightarrow> action list \<Rightarrow> proc" where
  "call p [] = p"
| "call p (Sigsuspend m # rest) =
     (if pending p \<and> SIGUSR1 \<notin> m
      then p\<lparr>prog := rest, made := made p @ [Sigsuspend m], pending := False\<rparr>
      else p)"
| "call p (a # rest) = p\<lparr>prog := rest, made := made p @ [a]\<rparr>"

definition kid_step :: "proc \<Rightarrow> proc" where
  "kid_step p =
     (if pending p \<and> \<not> blocked p then p\<lparr>pending := False\<rparr> else call p (prog p))"

definition deliver :: "int \<Rightarrow> (int \<times> proc) list \<Rightarrow> (int \<times> proc) list" where
  "deliver target ks =
     map (\<lambda>(q, p). if target = q \<or> target \<le> 0 then (q, p\<lparr>pending := True\<rparr>) else (q, p)) ks"

fun ctl_effect :: "(nat \<Rightarrow> action list) \<Rightarrow> bool \<Rightarrow> action \<Rightarrow> (int \<times> proc) list
    \<Rightarrow> (int \<times> proc) list" where
  "ctl_effect body b (Fork i p) ks =
     (if 0 < p then ks @ [(p, \<lparr>prog = body i, made = [], pending = False, blocked = b\<rparr>)]
      else ks)"
| "ctl_effect body b (Kill target sg) ks = (if sg = SIGUSR1 then deliver target ks else ks)"
| "ctl_effect body b a ks = ks"

fun step :: "(nat \<Rightarrow> action list) \<Rightarrow> who \<Rightarrow> sys \<Rightarrow> sys" where
  "step body Controller s =
     (case prog (ctl s) of
        [] \<Rightarrow> s
      | a # rest \<Rightarrow>
          \<lparr>ctl = (ctl s)\<lparr>prog := rest, made := made (ctl s) @ [a]\<rparr>,
           kids = ctl_effect body (blocked (ctl s)) a (kids s)\<rparr>)"
| "step body (Stage q) s =
     s\<lparr>kids := map (\<lambda>(q', p). if q' = q then (q', kid_step p) else (q', p)) (kids s)\<rparr>"

definition barrier_run :: "world \<Rightarrow> shell \<Rightarrow> who list \<Rightarrow> sys" where
  "barrier_run W st sched =
     fold (step (\<lambda>i. child_body W i (ExecuteCommands W st))) sched
       \<lparr>ctl = \<lparr>prog = launch_prog W st, made = [], pending = False,
               blocked = (SIGUSR1 \<in> sig_mask (trace st))\<rparr>,
        kids = []\<rparr>"

text \<open>
  What is asked of a process in a run: whether it has called \<open>execvp\<close>, and whether
  it has reached its suspend point, that is, its next call is \<open>sigsuspend\<close> or it has
  made that call.
\<close>

fun is_exec :: "action \<Rightarrow> bool" where
  "is_exec (Execvp path argv) = True"
| "is_exec a = False"

fun is_suspend :: "action \<Rightarrow> bool" where
  "is_suspend (Sigsuspend m) = True"
| "is_suspend a = False"

fun is_fork :: "action \<Rightarrow> bool" where
  "is_fork (Fork i p) = True"
| "is_fork a = False"

fun is_kill :: "action \<Rightarrow> bool" where
  "is_kill (Kill p sg) = True"
| "is_kill a = False"

definition execed :: "proc \<Rightarrow> bool" where
  "execed p = list_ex is_exec (made p)"

definition at_suspend :: "proc \<Rightarrow> bool" where
  "at_suspend p = (list_ex is_suspend (take 1 (prog p)) \<or> list_ex is_suspend (made p))"

definition progress :: "sys \<Rightarrow> (int \<times> bool \<times> bool) list" where
  "progress s = map (\<lambda>(q, p). (q, execed p, at_suspend p)) (kids s)"

text \<open>
  What every run keeps: the controller goes through its calls \<open>A @ B\<close> in order and
  has \<open>SIGUSR1\<close> blocked; so has every child, which goes through the calls of its stage;
  and a child with the signal pending, or past \<open>sigsuspend\<close>, finds the controller
  past \<open>A\<close> and a \<open>kill\<close> addressed to it among the controller's calls.
\<close>

definition barrier_inv :: "(nat \<Rightarrow> action list) \<Rightarrow> action list \<Rightarrow> action list \<Rightarrow> sys \<Rightarrow> bool" where
  "barrier_inv body A B s \<longleftrightarrow>
     made (ctl s) @ prog (ctl s) = A @ B \<and> blocked (ctl s) \<and>
     (\<forall>(q, p) \<in> set (kids s).
        blocked p \<and> (\<exists>i. made p @ prog p = body i) \<and>
        (pending p \<or> list_ex is_suspend (made p) \<longrightarrow>
           (\<exists>us. made (ctl s) = A @ us) \<and>
           (\<exists>t. Kill t SIGUSR1 \<in> set (made (ctl s)) \<and> (t = q \<or> t \<le> 0))))"

section \<open>What is observed of a turn\<close>

text \<open>
  Functions that read a trace or an outcome, and the forms in which the statements
  below describe what the program leaves: the children that \<open>waitid\<close> reported, the
  calls the waiting loop makes for each result, the record a child with readable files
  ends with, and the line \<open>PrintStatistics\<close> prints for a record it does not skip.
\<close>

fun report_of :: "action list \<Rightarrow> report_line list" where
  "report_of [] = []"
| "report_of (Report l # as) = l # report_of as"
| "report_of (a # as) = report_of as"

text \<open>The calls that create a channel or a process.\<close>

fun spawns :: "action \<Rightarrow> bool" where
  "spawns (Pipe i r) = True"
| "spawns (Fork i p) = True"
| "spawns a = False"


fun spawned :: "shell res \<Rightarrow> action list option" where
  "spawned (Ok st) = Some (filter spawns (trace st))"
| "spawned (Exit e st) = None"
| "spawned Fault = None"

fun children :: "wait_ev list \<Rightarrow> child_report list" where
  "children [] = []"
| "children (Eintr s # es) = children es"
| "children (Child c # es) = c # children es"

fun calls_of :: "wait_ev \<Rightarrow> action list" where
  "calls_of (Eintr s) = [Waitid_eintr]"
| "calls_of (Child c) =
     [Waitid_child (si_pid c), Fopen ''stat'' True, Fopen ''status'' True, Waitpid (si_pid c)]"

definition readable :: "child_report \<Rightarrow> bool" where
  "readable c = (stat_file c \<noteq> None \<and> status_file c \<noteq> None)"

text \<open>The record that \<open>SaveAndTerminateChild\<close> leaves for a child whose two files open.\<close>

definition stat_record :: "world \<Rightarrow> child_report \<Rightarrow> proc_stat \<Rightarrow> (string \<times> int) list \<Rightarrow> Stats" where
  "stat_record W c f ls =
     \<lparr>pid = f_pid f, cmd = take (length (f_comm f) - 2) (tl (f_comm f)),
      state = f_state f, ppid = f_ppid f,
      user = real (f_utime f) / real_of_int (clk_tck W),
      sys = real (f_stime f) / real_of_int (clk_tck W),
      excode = f_exit_code f sdiv 256,
      vctx = fst (scan_status ls (uninit_ctx c)),
      nvctx = snd (scan_status ls (uninit_ctx c)),
      exsig = (if WIFSIGNALED (wstatus c) then strsignal W (WTERMSIG (wstatus c)) else [])\<rparr>"

definition final_record :: "world \<Rightarrow> child_report \<Rightarrow> Stats" where
  "final_record W c = stat_record W c (the (stat_file c)) (the (status_file c))"



section \<open>Sample inputs\<close>

text \<open>
  Concrete commands, as the tokenizer leaves them for the lines named, and concrete
  surroundings: descriptors 3, 4, 5, ... from \<open>pipe\<close>, process identities 100, 101, ...
  from \<open>fork\<close>, and children that end as stated.
\<close>

definition no_children :: world where
  "no_children = \<lparr>sigs = [], eintr = False, stale = [],
     pipe_res = (\<lambda>i. Some (3 + 2 * int i, 4 + 2 * int i)),
     fork_res = (\<lambda>i. 100 + int i), exec_ok = (\<lambda>i. True), wait_res = [],
     strsignal = (\<lambda>n. ''Killed''), clk_tck = 100\<rparr>"

definition six_stages :: shell where
  "six_stages = (shell0 [])\<lparr>command :=
     \<lparr>list = [[''a''], [''b''], [''c''], [''d''], [''e''], [''f'']],
      num_words_arr = [2, 2, 2, 2, 2, 2], num_commands = 6, is_valid = True\<rparr>\<rparr>"

text \<open>
  A line of 1030 letters; the line \<open>ls\<close> and what the tokenizer returns on it; an
  interrupt that cuts the read short.
\<close>

definition long_line :: string where
  "long_line = replicate 1030 (CHR ''a'') @ [CHR 0x0A]"


definition tok_ls :: tokenizer where
  "tok_ls = ((\<lambda>s d. (1, True, [])),
             (\<lambda>s c. (c\<lparr>list := [[''ls'']], num_words_arr := [2]\<rparr>, [])))"


text \<open>
  A child that ended with \<open>exit(code)\<close>, as the shell finds it: a zombie whose status
  word, in the \<open>stat\<close> file and from \<open>waitpid\<close>, is \<open>256 * code\<close>.
\<close>

definition exited :: "int \<Rightarrow> string \<Rightarrow> int \<Rightarrow> child_report" where
  "exited p name code =
     \<lparr>si_pid = p,
      stat_file = Some \<lparr>f_pid = p, f_comm = ''('' @ name @ '')'', f_state = CHR ''Z'',
                         f_ppid = 99, f_utime = 0, f_stime = 0, f_exit_code = 256 * code\<rparr>,
      status_file = Some [(''voluntary_ctxt_switches'', 1), (''nonvoluntary_ctxt_switches'', 0)],
      uninit_ctx = (0, 0),
      wstatus = 256 * code\<rparr>"


text \<open>
  The lines \<open>false | true\<close>, \<open>sleep 1 | true\<close> and \<open>cat f | sort | uniq\<close> after parsing,
  with the orders of completion looked at.
\<close>

definition false_true :: shell where
  "false_true = (shell0 [])\<lparr>command :=
     \<lparr>list = [[''false''], [''true'']], num_words_arr = [2, 2],
      num_commands = 2, is_valid = True\<rparr>\<rparr>"




definition pipes_fail :: world where
  "pipes_fail = no_children\<lparr>pipe_res := (\<lambda>i. None),
     wait_res := [Child (exited 100 ''false'' 1), Child (exited 101 ''true'' 0)]\<rparr>"




text \<open>
  The command \<open>false | true\<close> in a shell that has run \<open>InstallHandler\<close>, and a schedule:
  four moves of the controller, then five of the first child.
\<close>

definition started :: shell where
  "started = (InstallHandler (shell0 []))\<lparr>command := command false_true\<rparr>"

definition early_release :: "who list" where
  "early_release = [Controller, Controller, Controller, Controller,
                    Stage 100, Stage 100, Stage 100, Stage 100, Stage 100]"

definition three_stages :: shell where
  "three_stages = (shell0 [])\<lparr>command :=
     \<lparr>list = [[''cat'', ''f''], [''sort''], [''uniq'']], num_words_arr = [3, 2, 2],
      num_commands = 3, is_valid = True\<rparr>\<rparr>"

definition one_stage :: shell where
  "one_stage = (shell0 [])\<lparr>command :=
     \<lparr>list = [[''ls'']], num_words_arr = [2], num_commands = 1, is_valid = True\<rparr>\<rparr>"

definition std_table :: fdtable where
  "std_table = [0 \<mapsto> Inherited 0, 1 \<mapsto> Inherited 1, 2 \<mapsto> Inherited 2]"

section \<open>Basic facts\<close>

lemma trace_emit [simp]: "trace (emit a st) = trace st @ [a]"
  by (simp add: emit_def)

lemma trace_emits [simp]: "trace (emits as st) = trace st @ as"
  by (simp add: emits_def)

lemma emit_fields [simp]:
  "command (emit a st) = command st" "stats (emit a st) = stats st"
  "pfd (emit a st) = pfd st" "children_pids (emit a st) = children_pids st"
  "is_waiting_input (emit a st) = is_waiting_input st"
  "sigint_received (emit a st) = sigint_received st"
  "stdin (emit a st) = stdin st"
  by (simp_all add: emit_def)

lemma emits_fields [simp]:
  "command (emits as st) = command st" "stats (emits as st) = stats st"
  "pfd (emits as st) = pfd st" "children_pids (emits as st) = children_pids st"
  "is_waiting_input (emits as st) = is_waiting_input st"
  "sigint_received (emits as st) = sigint_received st"
  "stdin (emits as st) = stdin st"
  by (simp_all add: emits_def)

lemma emits_emits [simp]: "emits bs (emits as st) = emits (as @ bs) st"
  by (simp add: emits_def)

lemma emit_emits: "emit a (emits as st) = emits (as @ [a]) st"
  by (simp add: emits_def emit_def)

lemma emits_Nil [simp]: "emits [] st = st"
  by (simp add: emits_def)

section \<open>Rejected commands\<close>

text \<open>
  C6. A command with more than five stages, and a command whose validity flag is false,
  ends the turn at once: \<open>run_cycle\<close> returns the state it was given, no call that creates
  a channel or a process is made, the descriptor table \<open>pfd\<close> and the recorded process
  identities are as before. The guard on the flag comes first and prints nothing; the
  guard on the number of stages prints its line.
\<close>

theorem rejected_before_spawn:
  assumes "\<not> is_valid (command st) \<or> 5 < num_commands (command st)"
  shows "\<exists>st'. run_cycle W st = Ok st'
           \<and> trace st' = trace st @
               (if is_valid (command st)
                then [Printf ''Shell: The maximum allowed number of commands is 5'']
                else [])
           \<and> filter spawns (trace st') = filter spawns (trace st)
           \<and> pfd st' = pfd st \<and> children_pids st' = children_pids st
           \<and> command st' = command st"
proof (cases "is_valid (command st)")
  case False
  then have "run_cycle W st = Ok st"
    by (simp add: run_cycle_def CheckExceptions_def)
  with False show ?thesis by simp
next
  case True
  with assms have big: "5 < num_commands (command st)" by simp
  let ?st' = "emit (Printf ''Shell: The maximum allowed number of commands is 5'') st"
  from True big have "run_cycle W st = Ok ?st'"
    by (simp add: run_cycle_def CheckExceptions_def)
  with True show ?thesis by simp
qed

theorem rejected_before_spawn_witness:
  "5 < num_commands (command six_stages)
   \<and> (\<exists>st'. run_cycle no_children six_stages = Ok st'
     \<and> trace st' = [Printf ''Shell: The maximum allowed number of commands is 5'']
     \<and> filter spawns (trace st') = []
     \<and> pfd st' = replicate 4 (0, 0) \<and> children_pids st' = replicate 5 0)
   \<and> \<not> is_valid (command (set_valid False six_stages))
   \<and> (\<exists>st'. run_cycle no_children (set_valid False six_stages) = Ok st'
     \<and> trace st' = [] \<and> pfd st' = replicate 4 (0, 0)
     \<and> children_pids st' = replicate 5 0)"
proof -
  have h: "\<not> is_valid (command six_stages) \<or> 5 < num_commands (command six_stages)"
    by (simp add: six_stages_def)
  from rejected_before_spawn [OF h, of no_children] obtain st' where
    "run_cycle no_children six_stages = Ok st'"
    "trace st' = trace six_stages @
       (if is_valid (command six_stages)
        then [Printf ''Shell: The maximum allowed number of commands is 5''] else [])"
    "filter spawns (trace st') = filter spawns (trace six_stages)"
    "pfd st' = pfd six_stages" "children_pids st' = children_pids six_stages"
    by blast
  then have over: "run_cycle no_children six_stages = Ok st'
     \<and> trace st' = [Printf ''Shell: The maximum allowed number of commands is 5'']
     \<and> filter spawns (trace st') = []
     \<and> pfd st' = replicate 4 (0, 0) \<and> children_pids st' = replicate 5 0"
    by (simp add: six_stages_def shell0_def)
  let ?bad = "set_valid False six_stages"
  have g: "\<not> is_valid (command ?bad) \<or> 5 < num_commands (command ?bad)"
    by (simp add: set_valid_def)
  from rejected_before_spawn [OF g, of no_children] obtain st2 where
    "run_cycle no_children ?bad = Ok st2"
    "trace st2 = trace ?bad @
       (if is_valid (command ?bad)
        then [Printf ''Shell: The maximum allowed number of commands is 5''] else [])"
    "pfd st2 = pfd ?bad" "children_pids st2 = children_pids ?bad"
    by blast
  then have bad: "run_cycle no_children ?bad = Ok st2
     \<and> trace st2 = [] \<and> pfd st2 = replicate 4 (0, 0)
     \<and> children_pids st2 = replicate 5 0"
    by (simp add: six_stages_def shell0_def set_valid_def)
  have "5 < num_commands (command six_stages)"
    by (simp add: six_stages_def)
  moreover have "\<not> is_valid (command ?bad)" by (simp add: set_valid_def)
  ultimately show ?thesis using over bad by blast
qed

section \<open>The input line\<close>

lemma SignalHandler_frame [simp]:
  "trace (SignalHandler sig_num st) = trace st"
  "command (SignalHandler sig_num st) = command st"
  "stats (SignalHandler sig_num st) = stats st"
  "pfd (SignalHandler sig_num st) = pfd st"
  "children_pids (SignalHandler sig_num st) = children_pids st"
  "stdin (SignalHandler sig_num st) = stdin st"
  "is_waiting_input (SignalHandler sig_num st) = is_waiting_input st"
  by (simp_all add: SignalHandler_def)

lemma handlers_run:
  "foldl (\<lambda>s sig_num. SignalHandler sig_num s) st xs =
     st\<lparr>sigint_received := sigint_received st \<or> (is_waiting_input st \<and> SIGINT \<in> set xs)\<rparr>"
proof (induction xs arbitrary: st)
  case Nil
  show ?case by simp
next
  case (Cons x xs)
  have "foldl (\<lambda>s sig_num. SignalHandler sig_num s) st (x # xs) =
        foldl (\<lambda>s sig_num. SignalHandler sig_num s) (SignalHandler x st) xs"
    by simp
  also have "\<dots> = (SignalHandler x st)\<lparr>sigint_received :=
       sigint_received (SignalHandler x st)
       \<or> (is_waiting_input (SignalHandler x st) \<and> SIGINT \<in> set xs)\<rparr>"
    by (rule Cons.IH)
  also have "\<dots> = st\<lparr>sigint_received :=
       sigint_received st \<or> (is_waiting_input st \<and> SIGINT \<in> set (x # xs))\<rparr>"
    by (cases "x = SIGINT \<and> is_waiting_input st") (auto simp: SignalHandler_def)
  finally show ?case .
qed

lemma tokenize_trace:
  "\<exists>out. trace (tokenize tok input_str st) = trace st @ map Printf out"
proof -
  obtain n v out where c: "fst tok input_str (CHR ''|'') = (n, v, out)"
    by (metis prod_cases3)
  show ?thesis
  proof (cases v)
    case False
    with c have "trace (tokenize tok input_str st) = trace st @ map Printf out"
      by (simp add: tokenize_def Let_def emits_def)
    then show ?thesis by blast
  next
    case True
    obtain cm out' where "snd tok input_str
        ((command st)\<lparr>num_commands := n, is_valid := True\<rparr>) = (cm, out')"
      by (metis prod.exhaust)
    with True c have "trace (tokenize tok input_str st) = trace st @ map Printf (out @ out')"
      by (simp add: tokenize_def Let_def emits_def)
    then show ?thesis by blast
  qed
qed


lemma tokenize_frame:
  "pfd (tokenize tok input_str st) = pfd st"
  "children_pids (tokenize tok input_str st) = children_pids st"
  "stats (tokenize tok input_str st) = stats st"
  "stdin (tokenize tok input_str st) = stdin st"
  by (auto simp: tokenize_def Let_def emits_def split: prod.splits if_splits)




lemma GetInputCommands_stdin:
  "stdin (GetInputCommands tok W st) = snd (read_line W (stdin st))"
  by (simp add: GetInputCommands_def Let_def handlers_run emit_def set_valid_def tokenize_frame)

lemma GetInputCommands_trace_rd:
  "\<exists>out. trace (GetInputCommands tok W st) =
     trace st @ [Prompt, Fgets 1025 (fst (read_line W (stdin st)))] @ map Printf out"
proof (cases "sigint_received (foldl (\<lambda>s sig_num. SignalHandler sig_num s)
                 (emit Prompt (st\<lparr>is_waiting_input := True\<rparr>)) (sigs W))")
  case True
  then have "trace (GetInputCommands tok W st) =
      trace st @ [Prompt, Fgets 1025 (fst (read_line W (stdin st)))] @ map Printf []"
    by (simp add: GetInputCommands_def Let_def handlers_run emit_def set_valid_def)
  then show ?thesis by blast
next
  case False
  let ?st3 = "emit (Fgets 1025 (fst (read_line W (stdin st))))
     ((emit Prompt (st\<lparr>is_waiting_input := True\<rparr>))\<lparr>stdin := snd (read_line W (stdin st))\<rparr>)"
  let ?s = "case fst (read_line W (stdin st)) of None \<Rightarrow> stale W | Some l \<Rightarrow> l"
  from False have "GetInputCommands tok W st = tokenize tok ?s ?st3"
    by (simp add: GetInputCommands_def Let_def handlers_run emit_def)
  moreover obtain out where "trace (tokenize tok ?s ?st3) = trace ?st3 @ map Printf out"
    using tokenize_trace by blast
  ultimately have "trace (GetInputCommands tok W st) =
      trace st @ [Prompt, Fgets 1025 (fst (read_line W (stdin st)))] @ map Printf out"
    by (simp add: emit_def)
  then show ?thesis by blast
qed

lemma fgets_chars_split:
  "fgets_chars k s = (l, r) \<Longrightarrow> l @ r = s \<and> length l \<le> k"
  by (induction k s arbitrary: l r rule: fgets_chars.induct)
     (auto split: if_splits prod.splits)

lemma fgets_chars_long:
  "CHR 0x0A \<notin> set (take k s) \<Longrightarrow> fgets_chars k s = (take k s, drop k s)"
  by (induction k s rule: fgets_chars.induct) auto

lemma read_line_bound:
  "case fst (read_line W s) of None \<Rightarrow> True
   | Some l \<Rightarrow> length l \<le> 1024 \<and> l @ snd (read_line W s) = s"
proof (cases "eintr W")
  case True
  then show ?thesis by (simp add: read_line_def)
next
  case False
  obtain l r where lr: "fgets_chars 1024 s = (l, r)" by (cases "fgets_chars 1024 s")
  from fgets_chars_split [OF lr] False lr show ?thesis
    by (simp add: read_line_def fgets_def)
qed

lemma GetInputCommands_stdin_upd:
  assumes "read_line W s1 = (r, x1)" "read_line W s2 = (r, x2)"
  shows "GetInputCommands tok W (st\<lparr>stdin := s1\<rparr>) =
         (GetInputCommands tok W (st\<lparr>stdin := s2\<rparr>))\<lparr>stdin := x1\<rparr>"
  using assms
  by (auto simp: GetInputCommands_def Let_def handlers_run emit_def set_valid_def
        tokenize_def emits_def split: prod.splits)

text \<open>
  C10. In every turn the line is read by one call of \<open>fgets\<close> with a buffer of 1025
  bytes: the call stores at most 1024 characters, and what it stores followed by what it
  leaves is the stream as it was. When the first 1024 characters of the stream hold no
  newline, the call returns exactly these and leaves the rest in the stream: the turn
  goes on as if the line had ended there, and the rest is read as a line of its own by
  a later call.
\<close>

theorem line_read_bound:
  "(\<exists>out. trace (GetInputCommands tok W st) =
       trace st @ [Prompt, Fgets 1025 (fst (read_line W (stdin st)))] @ map Printf out)
   \<and> stdin (GetInputCommands tok W st) = snd (read_line W (stdin st))
   \<and> (case fst (read_line W (stdin st)) of None \<Rightarrow> True
       | Some l \<Rightarrow> length l \<le> 1024 \<and> l @ snd (read_line W (stdin st)) = stdin st)
   \<and> (\<not> eintr W \<and> 1024 \<le> length (stdin st) \<and> CHR 0x0A \<notin> set (take 1024 (stdin st)) \<longrightarrow>
        read_line W (stdin st) = (Some (take 1024 (stdin st)), drop 1024 (stdin st))
        \<and> GetInputCommands tok W st =
            (GetInputCommands tok W (st\<lparr>stdin := take 1024 (stdin st)\<rparr>))
              \<lparr>stdin := drop 1024 (stdin st)\<rparr>)"
proof (intro conjI impI)
  show "\<exists>out. trace (GetInputCommands tok W st) =
       trace st @ [Prompt, Fgets 1025 (fst (read_line W (stdin st)))] @ map Printf out"
    by (rule GetInputCommands_trace_rd)
  show "stdin (GetInputCommands tok W st) = snd (read_line W (stdin st))"
    by (rule GetInputCommands_stdin)
  show "case fst (read_line W (stdin st)) of None \<Rightarrow> True
       | Some l \<Rightarrow> length l \<le> 1024 \<and> l @ snd (read_line W (stdin st)) = stdin st"
    by (rule read_line_bound)
next
  assume h: "\<not> eintr W \<and> 1024 \<le> length (stdin st) \<and> CHR 0x0A \<notin> set (take 1024 (stdin st))"
  then have ne: "stdin st \<noteq> []" by auto
  from h show full: "read_line W (stdin st) = (Some (take 1024 (stdin st)), drop 1024 (stdin st))"
    using ne by (simp add: read_line_def fgets_def fgets_chars_long)
  from h ne have "take 1024 (stdin st) \<noteq> []" by auto
  moreover from h have "CHR 0x0A \<notin> set (take 1024 (take 1024 (stdin st)))" by simp
  ultimately have part: "read_line W (take 1024 (stdin st)) = (Some (take 1024 (stdin st)), [])"
    using h by (simp add: read_line_def fgets_def fgets_chars_long)
  from GetInputCommands_stdin_upd [OF full part, of tok st]
  show "GetInputCommands tok W st =
            (GetInputCommands tok W (st\<lparr>stdin := take 1024 (stdin st)\<rparr>))
              \<lparr>stdin := drop 1024 (stdin st)\<rparr>"
    by simp
qed

theorem line_read_bound_witness:
  "\<not> eintr no_children \<and> 1024 \<le> length (stdin (shell0 long_line))
   \<and> CHR 0x0A \<notin> set (take 1024 (stdin (shell0 long_line)))
   \<and> read_line no_children (stdin (shell0 long_line)) =
        (Some (replicate 1024 (CHR ''a'')), replicate 6 (CHR ''a'') @ [CHR 0x0A])
   \<and> stdin (GetInputCommands tok_ls no_children (shell0 long_line)) =
        replicate 6 (CHR ''a'') @ [CHR 0x0A]"
proof -
  have h: "\<not> eintr no_children \<and> 1024 \<le> length (stdin (shell0 long_line))
      \<and> CHR 0x0A \<notin> set (take 1024 (stdin (shell0 long_line)))"
    by (simp add: no_children_def shell0_def long_line_def)
  have t: "take 1024 (stdin (shell0 long_line)) = replicate 1024 (CHR ''a'')"
    by (simp add: shell0_def long_line_def)
  have d: "drop 1024 (stdin (shell0 long_line)) = replicate 6 (CHR ''a'') @ [CHR 0x0A]"
    by (simp add: shell0_def long_line_def)
  from line_read_bound [of tok_ls no_children "shell0 long_line"] h
  have "read_line no_children (stdin (shell0 long_line)) =
          (Some (take 1024 (stdin (shell0 long_line))), drop 1024 (stdin (shell0 long_line)))"
    and "stdin (GetInputCommands tok_ls no_children (shell0 long_line)) =
          snd (read_line no_children (stdin (shell0 long_line)))"
    by blast+
  with h t d show ?thesis by simp
qed

section \<open>The waiting loop\<close>

lemma SaveAndTerminateChild_Ok:
  assumes "readable c" "i < length (stats st)"
  shows "SaveAndTerminateChild W c i st =
     Ok (st\<lparr>stats := (stats st)[i := final_record W c],
            trace := trace st @ [Fopen ''stat'' True, Fopen ''status'' True, Waitpid (si_pid c)]\<rparr>)"
proof -
  from assms(1) obtain f ls where f: "stat_file c = Some f" and ls: "status_file c = Some ls"
    by (auto simp: readable_def)
  obtain vc nvc where sc: "scan_status ls (uninit_ctx c) = (vc, nvc)"
    by (cases "scan_status ls (uninit_ctx c)")
  show ?thesis
    using assms(2) f ls sc
    by (simp add: SaveAndTerminateChild_def SaveStatisticsFromStat_def
          SaveStatisticsFromStatus_def Let_def emit_def final_record_def stat_record_def)
qed


lemma collect_Ok:
  assumes "list_all readable (children es)" "k + length (children es) \<le> length (stats st)"
  shows "\<exists>st'. collect W es k st = Ok (k + length (children es), st')
     \<and> stats st' = take k (stats st) @ map (final_record W) (children es)
                       @ drop (k + length (children es)) (stats st)
     \<and> trace st' = trace st @ concat (map calls_of es) @ [Waitid_fail]
     \<and> command st' = command st \<and> children_pids st' = children_pids st
     \<and> pfd st' = pfd st"
  using assms
proof (induction es arbitrary: k st)
  case Nil
  then show ?case by simp
next
  case (Cons e es)
  show ?case
  proof (cases e)
    case (Eintr s)
    let ?st1 = "emit Waitid_eintr (SignalHandler s st)"
    have step: "collect W (e # es) k st = collect W es k ?st1" using Eintr by simp
    from Cons.prems Eintr
    have "list_all readable (children es)" "k + length (children es) \<le> length (stats ?st1)"
      by simp_all
    from Cons.IH [OF this] obtain st' where
      "collect W es k ?st1 = Ok (k + length (children es), st')"
      "stats st' = take k (stats ?st1) @ map (final_record W) (children es)
                       @ drop (k + length (children es)) (stats ?st1)"
      "trace st' = trace ?st1 @ concat (map calls_of es) @ [Waitid_fail]"
      "command st' = command ?st1" "children_pids st' = children_pids ?st1"
      "pfd st' = pfd ?st1"
      by blast
    with step Eintr show ?thesis by simp
  next
    case (Child c)
    let ?st0 = "emit (Waitid_child (si_pid c)) st"
    let ?st1 = "?st0\<lparr>stats := (stats ?st0)[k := final_record W c],
            trace := trace ?st0 @ [Fopen ''stat'' True, Fopen ''status'' True, Waitpid (si_pid c)]\<rparr>"
    from Cons.prems Child have rc: "readable c" and k: "k < length (stats st)" by simp_all
    then have "SaveAndTerminateChild W c k ?st0 = Ok ?st1"
      by (intro SaveAndTerminateChild_Ok) simp_all
    then have step: "collect W (e # es) k st = collect W es (Suc k) ?st1" using Child by simp
    from Cons.prems Child
    have "list_all readable (children es)" "Suc k + length (children es) \<le> length (stats ?st1)"
      by simp_all
    from Cons.IH [OF this] obtain st' where
      "collect W es (Suc k) ?st1 = Ok (Suc k + length (children es), st')"
      "stats st' = take (Suc k) (stats ?st1) @ map (final_record W) (children es)
                       @ drop (Suc k + length (children es)) (stats ?st1)"
      "trace st' = trace ?st1 @ concat (map calls_of es) @ [Waitid_fail]"
      "command st' = command ?st1" "children_pids st' = children_pids ?st1"
      "pfd st' = pfd ?st1"
      by blast
    with step Child k show ?thesis
      by (simp add: take_Suc_conv_app_nth)
  qed
qed

section \<open>The calls of a launch\<close>

lemma send_release_fold:
  "fold (\<lambda>i s. emit (Kill (children_pids s ! i) SIGUSR1) s) [0..<m] st =
   emits (map (\<lambda>i. Kill (children_pids st ! i) SIGUSR1) [0..<m]) st"
  by (induction m) (simp_all add: emit_emits)

lemma send_release_eq:
  "send_release st =
   emits (map (\<lambda>i. Kill (children_pids st ! i) SIGUSR1)
            [0..<nat (num_commands (command st))]) st"
  by (simp add: send_release_def send_release_fold)

lemma close_all_fold:
  "fold (\<lambda>i s. emit (Close (snd (pfd s ! i))) (emit (Close (fst (pfd s ! i))) s)) [0..<m] st =
   emits (concat (map (\<lambda>i. [Close (fst (pfd st ! i)), Close (snd (pfd st ! i))]) [0..<m])) st"
  by (induction m) (simp_all add: emit_emits)

lemma close_all_eq: "close_all st = emits (close_pipes st) st"
  by (simp add: close_all_def close_pipes_def close_all_fold)

lemma pipe_step_fields [simp]:
  "command (pipe_step W i st) = command st" "stats (pipe_step W i st) = stats st"
  "children_pids (pipe_step W i st) = children_pids st"
  "trace (pipe_step W i st) = trace st @ [Pipe i (pipe_res W i)]"
  "length (pfd (pipe_step W i st)) = length (pfd st)"
  by (simp_all add: pipe_step_def split: option.splits)

lemma pipes_fold:
  "command (fold (pipe_step W) [0..<m] st) = command st
   \<and> stats (fold (pipe_step W) [0..<m] st) = stats st
   \<and> children_pids (fold (pipe_step W) [0..<m] st) = children_pids st
   \<and> trace (fold (pipe_step W) [0..<m] st) = trace st @ map (\<lambda>i. Pipe i (pipe_res W i)) [0..<m]
   \<and> length (pfd (fold (pipe_step W) [0..<m] st)) = length (pfd st)"
  by (induction m) simp_all

lemma pipes_fold_pfd:
  "j < length (pfd st) \<Longrightarrow>
   pfd (fold (pipe_step W) [0..<m] st) ! j =
     (if j < m then (case pipe_res W j of None \<Rightarrow> pfd st ! j | Some rw \<Rightarrow> rw) else pfd st ! j)"
proof (induction m)
  case 0
  show ?case by simp
next
  case (Suc m)
  have "pfd (pipe_step W m (fold (pipe_step W) [0..<m] st)) =
     (case pipe_res W m of None \<Rightarrow> pfd (fold (pipe_step W) [0..<m] st)
      | Some rw \<Rightarrow> (pfd (fold (pipe_step W) [0..<m] st))[m := rw])"
    by (simp add: pipe_step_def split: option.splits)
  with Suc show ?case
    by (cases "j = m") (auto simp: pipes_fold nth_list_update split: option.splits)
qed

lemma fork_step_fields [simp]:
  "command (fork_step W i st) = command st" "stats (fork_step W i st) = stats st"
  "pfd (fork_step W i st) = pfd st"
  "trace (fork_step W i st) = trace st @ [Fork i (fork_res W i)]"
  "length (children_pids (fork_step W i st)) = length (children_pids st)"
  by (simp_all add: fork_step_def)

lemma forks_fold:
  "command (fold (fork_step W) [0..<m] st) = command st
   \<and> stats (fold (fork_step W) [0..<m] st) = stats st
   \<and> pfd (fold (fork_step W) [0..<m] st) = pfd st
   \<and> trace (fold (fork_step W) [0..<m] st) = trace st @ map (\<lambda>i. Fork i (fork_res W i)) [0..<m]
   \<and> length (children_pids (fold (fork_step W) [0..<m] st)) = length (children_pids st)"
  by (induction m) simp_all

lemma forks_fold_pids:
  "j < length (children_pids st) \<Longrightarrow>
   children_pids (fold (fork_step W) [0..<m] st) ! j =
     (if j < m then fork_res W j else children_pids st ! j)"
proof (induction m)
  case 0
  show ?case by simp
next
  case (Suc m)
  have "children_pids (fork_step W m (fold (fork_step W) [0..<m] st)) =
     (children_pids (fold (fork_step W) [0..<m] st))[m := fork_res W m]"
    by (simp add: fork_step_def)
  with Suc show ?case
    by (cases "j = m") (auto simp: forks_fold nth_list_update)
qed

lemma ExecuteCommands_fields:
  "command (ExecuteCommands W st) = command st"
  "stats (ExecuteCommands W st) = stats st"
  "trace (ExecuteCommands W st) = trace st
     @ map (\<lambda>i. Pipe i (pipe_res W i)) [0..<nat (num_commands (command st) - 1)]
     @ map (\<lambda>i. Fork i (fork_res W i)) [0..<nat (num_commands (command st))]"
  "length (pfd (ExecuteCommands W st)) = length (pfd st)"
  "length (children_pids (ExecuteCommands W st)) = length (children_pids st)"
  by (simp_all add: ExecuteCommands_def Let_def forks_fold pipes_fold)

lemma ExecuteCommands_pids:
  "j < length (children_pids st) \<Longrightarrow>
   children_pids (ExecuteCommands W st) ! j =
     (if j < nat (num_commands (command st)) then fork_res W j else children_pids st ! j)"
  by (simp add: ExecuteCommands_def Let_def forks_fold_pids pipes_fold)

lemma ExecuteCommands_pfd:
  "j < length (pfd st) \<Longrightarrow>
   pfd (ExecuteCommands W st) ! j =
     (if j < nat (num_commands (command st) - 1)
      then (case pipe_res W j of None \<Rightarrow> pfd st ! j | Some rw \<Rightarrow> rw) else pfd st ! j)"
  by (simp add: ExecuteCommands_def Let_def forks_fold pipes_fold_pfd)

section \<open>The report of a turn\<close>

lemma report_of_append [simp]: "report_of (xs @ ys) = report_of xs @ report_of ys"
  by (induction xs rule: report_of.induct) simp_all

lemma print_one_fields [simp]:
  "stats (print_one i st) = stats st" "command (print_one i st) = command st"
  "children_pids (print_one i st) = children_pids st" "pfd (print_one i st) = pfd st"
  by (simp_all add: print_one_def Let_def)






lemma PrintStatistics_fields [simp]:
  "stats (PrintStatistics st) = stats st"
  "children_pids (PrintStatistics st) = children_pids st"
proof -
  have "stats (fold print_one xs st) = stats st
      \<and> children_pids (fold print_one xs st) = children_pids st" for xs
    by (induction xs arbitrary: st) simp_all
  then show "stats (PrintStatistics st) = stats st"
    "children_pids (PrintStatistics st) = children_pids st"
    by (simp_all add: PrintStatistics_def)
qed

lemma launch_fields:
  "command (close_all (send_release (ExecuteCommands W st))) = command st"
  "stats (close_all (send_release (ExecuteCommands W st))) = stats st"
  "children_pids (close_all (send_release (ExecuteCommands W st))) =
     children_pids (ExecuteCommands W st)"
  by (simp_all add: close_all_eq send_release_eq ExecuteCommands_fields)



lemma readable_exited [simp]: "readable (exited p name code)"
  by (simp add: readable_def exited_def)

lemma false_true_checked: "run_cycle W false_true = RunShell_body W false_true"
  by (simp add: run_cycle_def CheckExceptions_def false_true_def shell0_def)

section \<open>The interrupt\<close>







section \<open>Exit code and signal name\<close>




section \<open>Interrupted waits\<close>



section \<open>The order of the records\<close>







section \<open>Records left out of the report\<close>

lemma false_true_facts:
  "stats false_true = replicate 5 zero_stats" "trace false_true = []"
  "num_commands (command false_true) = 2" "children_pids false_true = replicate 5 0"
  "pfd false_true = replicate 4 (0, 0)"
  by (simp_all add: false_true_def shell0_def)




section \<open>Failing pipes\<close>

lemma spawns_none:
  "filter spawns (map (\<lambda>i. Kill (h i) sg) xs) = []"
  "filter spawns (concat (map (\<lambda>i. [Close (a i), Close (b i)]) xs)) = []"
  "filter spawns (map (\<lambda>i. Pipe i (f i)) xs) = map (\<lambda>i. Pipe i (f i)) xs"
  "filter spawns (map (\<lambda>i. Fork i (g i)) xs) = map (\<lambda>i. Fork i (g i)) xs"
  by (induction xs) simp_all

lemma spawns_calls: "filter spawns (concat (map calls_of es)) = []"
proof (induction es)
  case Nil
  show ?case by simp
next
  case (Cons e es)
  then show ?case by (cases e) simp_all
qed

lemma spawns_print: "filter spawns (trace (fold print_one xs st)) = filter spawns (trace st)"
  by (induction xs arbitrary: st) (simp_all add: print_one_def Let_def)

lemma RunShell_body_spawns:
  assumes "list_all readable (children (wait_res W))"
    and "length (children (wait_res W)) \<le> length (stats st)"
  shows "\<exists>st'. RunShell_body W st = Ok st'
     \<and> filter spawns (trace st') = filter spawns (trace st)
         @ map (\<lambda>i. Pipe i (pipe_res W i)) [0..<nat (num_commands (command st) - 1)]
         @ map (\<lambda>i. Fork i (fork_res W i)) [0..<nat (num_commands (command st))]
     \<and> pfd st' = pfd (ExecuteCommands W st)"
proof -
  let ?st3 = "close_all (send_release (ExecuteCommands W st))"
  let ?cs = "children (wait_res W)"
  have tr3: "filter spawns (trace ?st3) = filter spawns (trace st)
         @ map (\<lambda>i. Pipe i (pipe_res W i)) [0..<nat (num_commands (command st) - 1)]
         @ map (\<lambda>i. Fork i (fork_res W i)) [0..<nat (num_commands (command st))]"
    by (simp add: close_all_eq send_release_eq ExecuteCommands_fields close_pipes_def
          spawns_none)
  from assms have "0 + length ?cs \<le> length (stats ?st3)" by (simp add: launch_fields)
  from collect_Ok [OF assms(1) this, of W] obtain st4 where
    c: "collect W (wait_res W) 0 ?st3 = Ok (length ?cs, st4)"
    and t4: "trace st4 = trace ?st3 @ concat (map calls_of (wait_res W)) @ [Waitid_fail]"
    and p4: "pfd st4 = pfd ?st3"
    by auto
  have r4: "filter spawns (trace st4) = filter spawns (trace ?st3)"
    by (simp add: t4 spawns_calls)
  have p3: "pfd ?st3 = pfd (ExecuteCommands W st)"
    by (simp add: close_all_eq send_release_eq)
  have pp: "pfd (PrintStatistics st4) = pfd st4"
  proof -
    have "pfd (fold print_one xs s) = pfd s" for xs s
      by (induction xs arbitrary: s) simp_all
    then show ?thesis by (simp add: PrintStatistics_def)
  qed
  from c have "RunShell_body W st =
      Ok (FreeMemories (if length ?cs \<noteq> 0 then PrintStatistics st4 else st4))"
    by (simp add: RunShell_body_def)
  moreover have "filter spawns (trace (FreeMemories
       (if length ?cs \<noteq> 0 then PrintStatistics st4 else st4))) = filter spawns (trace st4)"
    by (simp add: FreeMemories_def PrintStatistics_def spawns_print)
  moreover have "pfd (FreeMemories
       (if length ?cs \<noteq> 0 then PrintStatistics st4 else st4)) = pfd st4"
    using pp by (simp add: FreeMemories_def)
  ultimately show ?thesis using r4 tr3 p4 p3 by simp
qed

text \<open>
  C5, as the code has it. The result of \<open>pipe\<close> is not examined. Whatever the calls
  return, the turn makes its \<open>N - 1\<close> calls of \<open>pipe\<close> and then its \<open>N\<close> calls of \<open>fork\<close>;
  a failed call leaves its entry of \<open>pfd\<close> as it was.
\<close>

theorem pipe_result_not_examined:
  assumes "list_all readable (children (wait_res W))"
    and "length (children (wait_res W)) \<le> length (stats st)"
  shows "\<exists>st'. RunShell_body W st = Ok st'
     \<and> filter spawns (trace st') = filter spawns (trace st)
         @ map (\<lambda>i. Pipe i (pipe_res W i)) [0..<nat (num_commands (command st) - 1)]
         @ map (\<lambda>i. Fork i (fork_res W i)) [0..<nat (num_commands (command st))]
     \<and> (\<forall>j. j < length (pfd st) \<and> j < nat (num_commands (command st) - 1)
              \<and> pipe_res W j = None \<longrightarrow> pfd st' ! j = pfd st ! j)"
proof -
  from RunShell_body_spawns [OF assms] obtain st' where
    "RunShell_body W st = Ok st'"
    "filter spawns (trace st') = filter spawns (trace st)
         @ map (\<lambda>i. Pipe i (pipe_res W i)) [0..<nat (num_commands (command st) - 1)]
         @ map (\<lambda>i. Fork i (fork_res W i)) [0..<nat (num_commands (command st))]"
    "pfd st' = pfd (ExecuteCommands W st)"
    by blast
  then show ?thesis by (auto simp: ExecuteCommands_pfd)
qed

theorem pipe_result_not_examined_witness:
  "list_all readable (children (wait_res pipes_fail))
   \<and> length (children (wait_res pipes_fail)) \<le> length (stats false_true)
   \<and> (\<exists>st'. RunShell_body pipes_fail false_true = Ok st'
        \<and> filter spawns (trace st') = [Pipe 0 None, Fork 0 100, Fork 1 101]
        \<and> pfd st' ! 0 = (0, 0))"
proof -
  have a: "list_all readable (children (wait_res pipes_fail))"
    and b: "length (children (wait_res pipes_fail)) \<le> length (stats false_true)"
    by (simp_all add: pipes_fail_def false_true_facts)
  from pipe_result_not_examined [OF a b] obtain st' where
    r: "RunShell_body pipes_fail false_true = Ok st'"
    and t: "filter spawns (trace st') = filter spawns (trace false_true)
         @ map (\<lambda>i. Pipe i (pipe_res pipes_fail i)) [0..<nat (num_commands (command false_true) - 1)]
         @ map (\<lambda>i. Fork i (fork_res pipes_fail i)) [0..<nat (num_commands (command false_true))]"
    and p: "\<forall>j. j < length (pfd false_true) \<and> j < nat (num_commands (command false_true) - 1)
              \<and> pipe_res pipes_fail j = None \<longrightarrow> pfd st' ! j = pfd false_true ! j"
    by blast
  from t have "filter spawns (trace st') = [Pipe 0 None, Fork 0 100, Fork 1 101]"
    by (simp add: false_true_facts pipes_fail_def no_children_def numeral_eq_Suc)
  moreover from p have "pfd st' ! 0 = (0, 0)"
    by (simp add: false_true_facts pipes_fail_def)
  ultimately show ?thesis using a b r by blast
qed

text \<open>
  The pipeline \<open>false | true\<close> when \<open>pipe\<close> fails: both stages are forked all the same.
\<close>

theorem failed_pipe_still_forks:
  "pipe_res pipes_fail 0 = None
   \<and> spawned (run_cycle pipes_fail false_true) = Some [Pipe 0 None, Fork 0 100, Fork 1 101]"
proof -
  have a: "list_all readable (children (wait_res pipes_fail))"
    and b: "length (children (wait_res pipes_fail)) \<le> length (stats false_true)"
    by (simp_all add: pipes_fail_def false_true_facts)
  from RunShell_body_spawns [OF a b] obtain st' where
    r: "RunShell_body pipes_fail false_true = Ok st'"
    and t: "filter spawns (trace st') = filter spawns (trace false_true)
         @ map (\<lambda>i. Pipe i (pipe_res pipes_fail i)) [0..<nat (num_commands (command false_true) - 1)]
         @ map (\<lambda>i. Fork i (fork_res pipes_fail i)) [0..<nat (num_commands (command false_true))]"
    by blast
  from t have "filter spawns (trace st') = [Pipe 0 None, Fork 0 100, Fork 1 101]"
    by (simp add: false_true_facts pipes_fail_def no_children_def numeral_eq_Suc)
  with r show ?thesis
    by (simp add: false_true_checked pipes_fail_def)
qed

section \<open>The descriptors of each stage\<close>

lemma fd_run_append [simp]: "fd_run (xs @ ys) T = fd_run ys (fd_run xs T)"
  by (simp add: fd_run_def)

lemma fd_run_Nil [simp]: "fd_run [] T = T"
  by (simp add: fd_run_def)

lemma fd_run_Cons [simp]: "fd_run (a # as) T = fd_run as (fd_effect a T)"
  by (simp add: fd_run_def)

lemma fd_run_forks [simp]: "fd_run (map (\<lambda>i. Fork i (g i)) xs) T = T"
  by (induction xs) simp_all

lemma fd_run_kills [simp]: "fd_run (map (\<lambda>i. Kill (h i) sg) xs) T = T"
  by (induction xs) simp_all

lemma set_pipe_fds: "x \<in> set (pipe_fds r w m) \<longleftrightarrow> (\<exists>i<m. x = r i \<or> x = w i)"
  by (auto simp: pipe_fds_def)

lemma pipe_fds_Suc: "pipe_fds r w (Suc m) = pipe_fds r w m @ [r m, w m]"
  by (simp add: pipe_fds_def)

lemma fd_run_closes:
  "fd_run (concat (map (\<lambda>i. [Close (a i), Close (b i)]) xs)) T =
   (\<lambda>fd. if \<exists>i\<in>set xs. fd = a i \<or> fd = b i then None else T fd)"
proof (induction xs arbitrary: T)
  case Nil
  show ?case by simp
next
  case (Cons x xs)
  show ?case by (simp add: Cons.IH) (rule ext, auto)
qed

lemma fd_run_pipes_at:
  assumes "distinct (pipe_fds r w m)"
  shows "(\<forall>i<m. fd_run (map (\<lambda>i. Pipe i (Some (r i, w i))) [0..<m]) T (r i) = Some (Chan_read i)
              \<and> fd_run (map (\<lambda>i. Pipe i (Some (r i, w i))) [0..<m]) T (w i) = Some (Chan_write i))
       \<and> (\<forall>fd. fd \<notin> set (pipe_fds r w m) \<longrightarrow>
              fd_run (map (\<lambda>i. Pipe i (Some (r i, w i))) [0..<m]) T fd = T fd)"
  using assms
proof (induction m)
  case 0
  show ?case by (simp add: pipe_fds_def)
next
  case (Suc m)
  from Suc.prems have d: "distinct (pipe_fds r w m)"
    and new: "r m \<notin> set (pipe_fds r w m)" "w m \<notin> set (pipe_fds r w m)" "r m \<noteq> w m"
    by (auto simp: pipe_fds_Suc)
  note IH = Suc.IH [OF d]
  let ?T = "fd_run (map (\<lambda>i. Pipe i (Some (r i, w i))) [0..<m]) T"
  have step: "fd_run (map (\<lambda>i. Pipe i (Some (r i, w i))) [0..<Suc m]) T =
      (?T(r m \<mapsto> Chan_read m))(w m \<mapsto> Chan_write m)"
    by simp
  have old: "r i \<noteq> r m \<and> r i \<noteq> w m \<and> w i \<noteq> r m \<and> w i \<noteq> w m" if "i < m" for i
  proof -
    from that have "r i \<in> set (pipe_fds r w m)" "w i \<in> set (pipe_fds r w m)"
      by (auto simp: set_pipe_fds)
    with new show ?thesis by auto
  qed
  show ?case
    unfolding step using IH old new
    by (auto simp: pipe_fds_Suc less_Suc_eq)
qed

lemma launch_shape:
  assumes "num_commands (command st) = int N" "N \<le> Suc (length (pfd st))"
    and "\<forall>i<N - 1. pipe_res W i = Some (r i, w i)"
  shows "drop (length (trace st)) (trace (ExecuteCommands W st)) =
           map (\<lambda>i. Pipe i (Some (r i, w i))) [0..<N - 1]
           @ map (\<lambda>i. Fork i (fork_res W i)) [0..<N]"
    and "close_pipes (ExecuteCommands W st) =
           concat (map (\<lambda>i. [Close (r i), Close (w i)]) [0..<N - 1])"
    and "\<forall>i<N - 1. pfd (ExecuteCommands W st) ! i = (r i, w i)"
    and "num_commands (command (ExecuteCommands W st)) = int N"
proof -
  have m: "nat (int N - 1) = N - 1" by simp
  have "map (\<lambda>i. Pipe i (pipe_res W i)) [0..<N - 1] =
        map (\<lambda>i. Pipe i (Some (r i, w i))) [0..<N - 1]"
    using assms(3) by simp
  then show "drop (length (trace st)) (trace (ExecuteCommands W st)) =
           map (\<lambda>i. Pipe i (Some (r i, w i))) [0..<N - 1]
           @ map (\<lambda>i. Fork i (fork_res W i)) [0..<N]"
    by (simp add: ExecuteCommands_fields assms(1) m)
  show p: "\<forall>i<N - 1. pfd (ExecuteCommands W st) ! i = (r i, w i)"
  proof (intro allI impI)
    fix i assume i: "i < N - 1"
    with assms(2) have "i < length (pfd st)" by simp
    from ExecuteCommands_pfd [OF this, of W] i assms(1,3) m
    show "pfd (ExecuteCommands W st) ! i = (r i, w i)" by simp
  qed
  show "num_commands (command (ExecuteCommands W st)) = int N"
    by (simp add: ExecuteCommands_fields assms(1))
  have mp: "map (\<lambda>i. [Close (fst (pfd (ExecuteCommands W st) ! i)),
                    Close (snd (pfd (ExecuteCommands W st) ! i))]) [0..<N - 1] =
        map (\<lambda>i. [Close (r i), Close (w i)]) [0..<N - 1]"
    using p by simp
  have "close_pipes (ExecuteCommands W st) =
      concat (map (\<lambda>i. [Close (fst (pfd (ExecuteCommands W st) ! i)),
                    Close (snd (pfd (ExecuteCommands W st) ! i))]) [0..<N - 1])"
    by (simp add: close_pipes_def ExecuteCommands_fields assms(1) m)
  also have "\<dots> = concat (map (\<lambda>i. [Close (r i), Close (w i)]) [0..<N - 1])"
    by (rule arg_cong [OF mp])
  finally show "close_pipes (ExecuteCommands W st) =
           concat (map (\<lambda>i. [Close (r i), Close (w i)]) [0..<N - 1])" .
qed

lemma close_pipes_emits [simp]: "close_pipes (emits as st) = close_pipes st"
  by (simp add: close_pipes_def)

lemma closes_table:
  "fd_run (concat (map (\<lambda>i. [Close (r i), Close (w i)]) [0..<m])) T =
   (\<lambda>fd. if fd \<in> set (pipe_fds r w m) then None else T fd)"
  by (simp add: fd_run_closes set_pipe_fds) (rule ext, auto)

text \<open>
  C4. A pipeline of \<open>N\<close> stages, \<open>1 \<le> N \<le> 5\<close>, whose calls of \<open>pipe\<close> all succeed
  with descriptors \<open>r i\<close> and \<open>w i\<close> that are pairwise different and none of them 0 or 1
  (the kernel hands out unused descriptors, and 0 and 1 are in use). When the child for
  a stage reaches \<open>sigsuspend\<close>: with one stage its table is the controller's; stage 0
  has the write end of channel 0 at descriptor 1 and its descriptor 0 untouched; stage
  \<open>N - 1\<close> has the read end of channel \<open>N - 2\<close> at descriptor 0 and its descriptor 1
  untouched; a stage in between has the read end of the channel before it at 0 and the
  write end of its own channel at 1; and every other descriptor of the child is as the
  shell had it before the launch, except that all descriptors of all channels are closed.
  The controller's table after the launch has all of them closed as well, and its calls
  of \<open>close\<close> come after the last \<open>fork\<close> (and after the release).
\<close>

theorem stage_bindings:
  assumes "num_commands (command st) = int N" and "1 \<le> N" and "N \<le> 5"
    and "length (pfd st) = 4"
    and "\<forall>i<N - 1. pipe_res W i = Some (r i, w i)"
    and "distinct (pipe_fds r w (N - 1))"
    and "0 \<notin> set (pipe_fds r w (N - 1))" and "1 \<notin> set (pipe_fds r w (N - 1))"
    and "cmd_idx < N"
  shows "(N = 1 \<longrightarrow> stage_table W st T0 cmd_idx = T0)
     \<and> (1 < N \<and> cmd_idx = 0 \<longrightarrow>
          stage_table W st T0 cmd_idx 1 = Some (Chan_write 0)
          \<and> stage_table W st T0 cmd_idx 0 = T0 0)
     \<and> (1 < N \<and> cmd_idx = N - 1 \<longrightarrow>
          stage_table W st T0 cmd_idx 0 = Some (Chan_read (N - 2))
          \<and> stage_table W st T0 cmd_idx 1 = T0 1)
     \<and> (0 < cmd_idx \<and> cmd_idx < N - 1 \<longrightarrow>
          stage_table W st T0 cmd_idx 0 = Some (Chan_read (cmd_idx - 1))
          \<and> stage_table W st T0 cmd_idx 1 = Some (Chan_write cmd_idx))
     \<and> (\<forall>fd. fd \<noteq> 0 \<and> fd \<noteq> 1 \<longrightarrow>
          stage_table W st T0 cmd_idx fd =
            (if fd \<in> set (pipe_fds r w (N - 1)) then None else T0 fd))
     \<and> (\<forall>fd. controller_table W st T0 fd =
            (if fd \<in> set (pipe_fds r w (N - 1)) then None else T0 fd))
     \<and> launch_prog W st =
          map (\<lambda>i. Pipe i (Some (r i, w i))) [0..<N - 1]
          @ map (\<lambda>i. Fork i (fork_res W i)) [0..<N]
          @ map (\<lambda>i. Kill (children_pids (ExecuteCommands W st) ! i) SIGUSR1) [0..<N]
          @ concat (map (\<lambda>i. [Close (r i), Close (w i)]) [0..<N - 1])"
proof -
  let ?st1 = "ExecuteCommands W st"
  let ?F = "set (pipe_fds r w (N - 1))"
  let ?T1 = "fd_run (map (\<lambda>i. Pipe i (Some (r i, w i))) [0..<N - 1]) T0"
  let ?cl = "concat (map (\<lambda>i. [Close (r i), Close (w i)]) [0..<N - 1])"
  from assms(3,4) have len: "N \<le> Suc (length (pfd st))" by simp
  note sh = launch_shape [OF assms(1) len assms(5)]
  note pa = fd_run_pipes_at [OF assms(6), of T0]
  have T1r: "?T1 (r i) = Some (Chan_read i)" and T1w: "?T1 (w i) = Some (Chan_write i)"
    if "i < N - 1" for i
    using pa that by blast+
  have T1o: "?T1 fd = T0 fd" if "fd \<notin> ?F" for fd
    using pa that by blast
  have st_eq: "stage_table W st T0 k = fd_run (child_setup k ?st1) ?T1" for k
    by (simp add: stage_table_def sh(1))
  have prog: "launch_prog W st =
          map (\<lambda>i. Pipe i (Some (r i, w i))) [0..<N - 1]
          @ map (\<lambda>i. Fork i (fork_res W i)) [0..<N]
          @ map (\<lambda>i. Kill (children_pids ?st1 ! i) SIGUSR1) [0..<N]
          @ ?cl"
  proof -
    have "trace (close_all (send_release ?st1)) =
        trace ?st1 @ map (\<lambda>i. Kill (children_pids ?st1 ! i) SIGUSR1) [0..<N] @ ?cl"
      by (simp add: close_all_eq send_release_eq sh(2,4) ExecuteCommands_fields assms(1))
    moreover have "trace ?st1 = trace st @ drop (length (trace st)) (trace ?st1)"
      by (simp add: ExecuteCommands_fields)
    ultimately show ?thesis
      by (simp add: launch_prog_def sh(1) del: append_assoc)
  qed
  have ctl: "controller_table W st T0 fd = (if fd \<in> ?F then None else T0 fd)" for fd
    using T1o by (simp add: controller_table_def prog closes_table)
  have one: "stage_table W st T0 cmd_idx = T0" if "N = 1"
    using that by (simp add: st_eq child_setup_def sh(4))
  have first: "stage_table W st T0 cmd_idx = 
      (\<lambda>fd. if fd \<in> ?F then None else (?T1(1 \<mapsto> Chan_write 0)) fd)"
    if "1 < N" "cmd_idx = 0"
  proof -
    from that have "0 < N - 1" by simp
    from T1w [OF this] sh(3) that show ?thesis
      by (simp add: st_eq child_setup_def sh(2,4) closes_table cong: if_cong)
  qed
  have last: "stage_table W st T0 cmd_idx = 
      (\<lambda>fd. if fd \<in> ?F then None else (?T1(0 \<mapsto> Chan_read (N - 2))) fd)"
    if "1 < N" "cmd_idx = N - 1"
  proof -
    from that have i: "N - 2 < N - 1" and e: "cmd_idx - 1 = N - 2" and nz: "cmd_idx \<noteq> 0"
      by simp_all
    from T1r [OF i] sh(3) i that e nz assms(2) show ?thesis
      by (simp add: st_eq child_setup_def sh(2,4) closes_table of_nat_diff cong: if_cong)
  qed
  have mid: "stage_table W st T0 cmd_idx = 
      (\<lambda>fd. if fd \<in> ?F then None
            else ((?T1(0 \<mapsto> Chan_read (cmd_idx - 1)))(1 \<mapsto> Chan_write cmd_idx)) fd)"
    if "0 < cmd_idx" "cmd_idx < N - 1"
  proof -
    from that have i: "cmd_idx - 1 < N - 1" and n1: "1 < N" and ne: "int cmd_idx \<noteq> int N - 1"
      by simp_all
    have z1: "(0::int) \<noteq> w cmd_idx"
      using assms(7) that(2) by (auto simp: set_pipe_fds)
    from T1r [OF i] T1w [OF that(2)] sh(3) i that n1 ne z1 show ?thesis
      by (simp add: st_eq child_setup_def sh(2,4) closes_table cong: if_cong)
  qed
  have other: "stage_table W st T0 cmd_idx fd = (if fd \<in> ?F then None else T0 fd)"
    if "fd \<noteq> 0" "fd \<noteq> 1" for fd
  proof -
    consider "N = 1" | "1 < N" "cmd_idx = 0" | "1 < N" "cmd_idx = N - 1" "cmd_idx \<noteq> 0"
      | "0 < cmd_idx" "cmd_idx < N - 1"
      using assms(2,9) by linarith
    then show ?thesis
    proof cases
      case 1
      then show ?thesis using one by (simp add: pipe_fds_def)
    next
      case 2
      then show ?thesis using first that T1o by simp
    next
      case 3
      then show ?thesis using last that T1o by simp
    next
      case 4
      then show ?thesis using mid that T1o by simp
    qed
  qed
  show ?thesis
    using one first last mid other ctl prog assms(7,8) T1o
    by (intro conjI impI allI) simp_all
qed

theorem stage_bindings_witness:
  "num_commands (command three_stages) = int 3 \<and> length (pfd three_stages) = 4
   \<and> num_commands (command one_stage) = int 1 \<and> length (pfd one_stage) = 4
   \<and> pipe_res no_children 0 = Some (3, 4) \<and> pipe_res no_children 1 = Some (5, 6)
   \<and> distinct (pipe_fds (\<lambda>i. 3 + 2 * int i) (\<lambda>i. 4 + 2 * int i) 2)
   \<and> 0 \<notin> set (pipe_fds (\<lambda>i. 3 + 2 * int i) (\<lambda>i. 4 + 2 * int i) 2)
   \<and> 1 \<notin> set (pipe_fds (\<lambda>i. 3 + 2 * int i) (\<lambda>i. 4 + 2 * int i) 2)
   \<and> stage_table no_children one_stage std_table 0 = std_table
   \<and> stage_table no_children three_stages std_table 0 0 = Some (Inherited 0)
   \<and> stage_table no_children three_stages std_table 0 1 = Some (Chan_write 0)
   \<and> stage_table no_children three_stages std_table 1 0 = Some (Chan_read 0)
   \<and> stage_table no_children three_stages std_table 1 1 = Some (Chan_write 1)
   \<and> stage_table no_children three_stages std_table 2 0 = Some (Chan_read 1)
   \<and> stage_table no_children three_stages std_table 2 1 = Some (Inherited 1)
   \<and> stage_table no_children three_stages std_table 1 2 = Some (Inherited 2)
   \<and> stage_table no_children three_stages std_table 1 3 = None
   \<and> stage_table no_children three_stages std_table 1 6 = None
   \<and> controller_table no_children three_stages std_table 4 = None
   \<and> controller_table no_children three_stages std_table 1 = Some (Inherited 1)"
proof -
  let ?r = "\<lambda>i. 3 + 2 * int i" and ?w = "\<lambda>i. 4 + 2 * int i"
  have fds: "pipe_fds ?r ?w 2 = [3, 4, 5, 6]" "pipe_fds ?r ?w 0 = []"
    by (simp_all add: pipe_fds_def numeral_eq_Suc)
  have h1: "num_commands (command three_stages) = int 3"
    and h4: "length (pfd three_stages) = 4"
    by (simp_all add: three_stages_def shell0_def)
  have g1: "num_commands (command one_stage) = int 1"
    and g4: "length (pfd one_stage) = 4"
    by (simp_all add: one_stage_def shell0_def)
  have h5: "\<forall>i<3 - 1. pipe_res no_children i = Some (?r i, ?w i)"
    and g5: "\<forall>i<1 - 1. pipe_res no_children i = Some (?r i, ?w i)"
    by (simp_all add: no_children_def)
  have h6: "distinct (pipe_fds ?r ?w (3 - 1))"
    and h7: "0 \<notin> set (pipe_fds ?r ?w (3 - 1))" and h8: "1 \<notin> set (pipe_fds ?r ?w (3 - 1))"
    and g6: "distinct (pipe_fds ?r ?w (1 - 1))"
    and g7: "0 \<notin> set (pipe_fds ?r ?w (1 - 1))" and g8: "1 \<notin> set (pipe_fds ?r ?w (1 - 1))"
    using fds by simp_all
  note single = stage_bindings [OF g1 _ _ g4 g5 g6 g7 g8, of 0 std_table]
  note first = stage_bindings [OF h1 _ _ h4 h5 h6 h7 h8, of 0 std_table]
  note mid = stage_bindings [OF h1 _ _ h4 h5 h6 h7 h8, of 1 std_table]
  note last = stage_bindings [OF h1 _ _ h4 h5 h6 h7 h8, of 2 std_table]
  from single have s0: "stage_table no_children one_stage std_table 0 = std_table" by simp
  from first have f0: "stage_table no_children three_stages std_table 0 0 = Some (Inherited 0)"
    and f1: "stage_table no_children three_stages std_table 0 1 = Some (Chan_write 0)"
    by (simp_all add: std_table_def)
  from mid have m0: "stage_table no_children three_stages std_table 1 0 = Some (Chan_read 0)"
    and m1: "stage_table no_children three_stages std_table 1 1 = Some (Chan_write 1)"
    by simp_all
  from last have l0: "stage_table no_children three_stages std_table 2 0 = Some (Chan_read 1)"
    and l1: "stage_table no_children three_stages std_table 2 1 = Some (Inherited 1)"
    by (simp_all add: std_table_def)
  from mid have o: "\<forall>fd. fd \<noteq> 0 \<and> fd \<noteq> 1 \<longrightarrow>
          stage_table no_children three_stages std_table 1 fd =
            (if fd \<in> set (pipe_fds ?r ?w (3 - 1)) then None else std_table fd)"
    and c: "\<forall>fd. controller_table no_children three_stages std_table fd =
            (if fd \<in> set (pipe_fds ?r ?w (3 - 1)) then None else std_table fd)"
    by simp_all
  from o fds have o2: "stage_table no_children three_stages std_table 1 2 = Some (Inherited 2)"
    and o3: "stage_table no_children three_stages std_table 1 3 = None"
    and o6: "stage_table no_children three_stages std_table 1 6 = None"
    by (simp_all add: std_table_def)
  from c fds have c4: "controller_table no_children three_stages std_table 4 = None"
    and c1: "controller_table no_children three_stages std_table 1 = Some (Inherited 1)"
    by (simp_all add: std_table_def)
  have p: "pipe_res no_children 0 = Some (3, 4)" "pipe_res no_children 1 = Some (5, 6)"
    by (simp_all add: no_children_def)
  from h1 h4 g1 g4 p h6 h7 h8 s0 f0 f1 m0 m1 l0 l1 o2 o3 o6 c4 c1 show ?thesis by simp
qed

section \<open>The release of the children\<close>

lemma call_keeps:
  "made (call p (prog p)) @ prog (call p (prog p)) = made p @ prog p"
  "blocked (call p (prog p)) = blocked p"
  "pending (call p (prog p)) \<or> list_ex is_suspend (made (call p (prog p))) \<Longrightarrow>
   pending p \<or> list_ex is_suspend (made p)"
proof -
  show "made (call p (prog p)) @ prog (call p (prog p)) = made p @ prog p"
  proof (cases "prog p")
    case Nil
    then show ?thesis by simp
  next
    case (Cons a rest)
    then show ?thesis by (cases a) simp_all
  qed
  show "blocked (call p (prog p)) = blocked p"
  proof (cases "prog p")
    case Nil
    then show ?thesis by simp
  next
    case (Cons a rest)
    then show ?thesis by (cases a) simp_all
  qed
  assume h: "pending (call p (prog p)) \<or> list_ex is_suspend (made (call p (prog p)))"
  show "pending p \<or> list_ex is_suspend (made p)"
  proof (cases "prog p")
    case Nil
    with h show ?thesis by simp
  next
    case (Cons a rest)
    with h show ?thesis by (cases a) (auto split: if_splits)
  qed
qed

lemma kid_step_keeps:
  assumes "blocked p"
  shows "made (kid_step p) @ prog (kid_step p) = made p @ prog p"
    and "blocked (kid_step p)"
    and "pending (kid_step p) \<or> list_ex is_suspend (made (kid_step p)) \<Longrightarrow>
         pending p \<or> list_ex is_suspend (made p)"
  using assms call_keeps [of p] by (simp_all add: kid_step_def)

lemma past_prefix:
  assumes "xs @ a # ys = A @ B" and "a \<notin> set A"
  shows "\<exists>us. xs @ [a] = A @ us"
proof -
  from assms(1) obtain us where
    "(xs = A @ us \<and> us @ a # ys = B) \<or> (xs @ us = A \<and> a # ys = us @ B)"
    by (auto simp: append_eq_append_conv2)
  then show ?thesis
  proof
    assume "xs = A @ us \<and> us @ a # ys = B"
    then show ?thesis by simp
  next
    assume h: "xs @ us = A \<and> a # ys = us @ B"
    show ?thesis
    proof (cases us)
      case Nil
      with h show ?thesis by auto
    next
      case (Cons u us')
      with h have "a \<in> set A" by auto
      with assms(2) show ?thesis by simp
    qed
  qed
qed

lemma barrier_inv_step:
  assumes noK: "\<not> list_ex is_kill A" and inv: "barrier_inv body A B s"
  shows "barrier_inv body A B (step body w s)"
proof (cases w)
  case Controller
  show ?thesis
  proof (cases "prog (ctl s)")
    case Nil
    with Controller inv show ?thesis by simp
  next
    case (Cons a rest)
    from inv Cons have P: "made (ctl s) @ a # rest = A @ B" and b: "blocked (ctl s)"
      by (simp_all add: barrier_inv_def)
    have old: "blocked p \<and> (\<exists>i. made p @ prog p = body i) \<and>
        (pending p \<or> list_ex is_suspend (made p) \<longrightarrow>
           (\<exists>us. made (ctl s) @ [a] = A @ us) \<and>
           (\<exists>t. Kill t SIGUSR1 \<in> set (made (ctl s) @ [a]) \<and> (t = q \<or> t \<le> 0)))"
      if "(q, p) \<in> set (kids s)" for q p
      using inv that by (fastforce simp: barrier_inv_def)
    have kill: "\<exists>us. made (ctl s) @ [a] = A @ us" if "is_kill a"
    proof -
      from that noK have "a \<notin> set A" by (auto simp: list_ex_iff)
      with P show ?thesis by (rule past_prefix)
    qed
    have new: "blocked p \<and> (\<exists>i. made p @ prog p = body i) \<and>
        (pending p \<or> list_ex is_suspend (made p) \<longrightarrow>
           (\<exists>us. made (ctl s) @ [a] = A @ us) \<and>
           (\<exists>t. Kill t SIGUSR1 \<in> set (made (ctl s) @ [a]) \<and> (t = q \<or> t \<le> 0)))"
      if "(q, p) \<in> set (ctl_effect body (blocked (ctl s)) a (kids s))" for q p
    proof (cases a)
      case (Fork i c)
      with that b old show ?thesis by (auto split: if_splits)
    next
      case (Kill t sg)
      with kill have k: "\<exists>us. made (ctl s) @ [a] = A @ us" by simp
      from that Kill obtain p0 where "(q, p0) \<in> set (kids s)"
        and "p = p0 \<or> (p = p0\<lparr>pending := True\<rparr> \<and> sg = SIGUSR1 \<and> (t = q \<or> t \<le> 0))"
        by (auto simp: deliver_def split: if_splits)
      with old [of q p0] k Kill show ?thesis by auto
    qed (use that old in auto)
    from Controller Cons P b new show ?thesis
      by (auto simp: barrier_inv_def)
  qed
next
  case (Stage x)
  from inv have c: "made (ctl s) @ prog (ctl s) = A @ B" "blocked (ctl s)"
    by (simp_all add: barrier_inv_def)
  have "blocked p' \<and> (\<exists>i. made p' @ prog p' = body i) \<and>
        (pending p' \<or> list_ex is_suspend (made p') \<longrightarrow>
           (\<exists>us. made (ctl s) = A @ us) \<and>
           (\<exists>t. Kill t SIGUSR1 \<in> set (made (ctl s)) \<and> (t = q \<or> t \<le> 0)))"
    if "(q, p') \<in> set (map (\<lambda>(q', p). if q' = x then (q', kid_step p) else (q', p)) (kids s))"
    for q p'
  proof -
    from that obtain p where in_k: "(q, p) \<in> set (kids s)" and "p' = p \<or> p' = kid_step p"
      by (auto split: if_splits)
    from inv in_k have o: "blocked p" "\<exists>i. made p @ prog p = body i"
      "pending p \<or> list_ex is_suspend (made p) \<longrightarrow>
           (\<exists>us. made (ctl s) = A @ us) \<and>
           (\<exists>t. Kill t SIGUSR1 \<in> set (made (ctl s)) \<and> (t = q \<or> t \<le> 0))"
      by (auto simp: barrier_inv_def)
    from \<open>p' = p \<or> p' = kid_step p\<close> show ?thesis
    proof
      assume "p' = p"
      with o show ?thesis by simp
    next
      assume "p' = kid_step p"
      with o kid_step_keeps [OF o(1)] show ?thesis by auto
    qed
  qed
  note kk = this
  have e: "ctl (step body w s) = ctl s"
    "kids (step body w s) =
       map (\<lambda>(q', p). if q' = x then (q', kid_step p) else (q', p)) (kids s)"
    using Stage by simp_all
  show ?thesis
    unfolding barrier_inv_def e
  proof (intro conjI ballI)
    show "made (ctl s) @ prog (ctl s) = A @ B" "blocked (ctl s)" by (rule c)+
  next
    fix z assume z: "z \<in> set (map (\<lambda>(q', p). if q' = x then (q', kid_step p) else (q', p)) (kids s))"
    obtain q p' where "z = (q, p')" by (cases z)
    with z kk [of q p'] show "case z of (q, p) \<Rightarrow>
        blocked p \<and> (\<exists>i. made p @ prog p = body i) \<and>
        (pending p \<or> list_ex is_suspend (made p) \<longrightarrow>
           (\<exists>us. made (ctl s) = A @ us) \<and>
           (\<exists>t. Kill t SIGUSR1 \<in> set (made (ctl s)) \<and> (t = q \<or> t \<le> 0)))"
      by simp
  qed
qed

lemma barrier_inv_run:
  assumes "\<not> list_ex is_kill A" and "barrier_inv body A B s"
  shows "barrier_inv body A B (fold (step body) sched s)"
  using assms(2)
proof (induction sched arbitrary: s)
  case Nil
  then show ?case by simp
next
  case (Cons w sched)
  from barrier_inv_step [OF assms(1) Cons.prems] Cons.IH show ?case by simp
qed

lemma barrier_inv_kid:
  assumes "barrier_inv body A B s" and "(q, p) \<in> set (kids s)"
  shows "blocked p" and "\<exists>i. made p @ prog p = body i"
    and "pending p \<or> list_ex is_suspend (made p) \<Longrightarrow>
           (\<exists>us. made (ctl s) = A @ us) \<and>
           (\<exists>t. Kill t SIGUSR1 \<in> set (made (ctl s)) \<and> (t = q \<or> t \<le> 0))"
  using assms unfolding barrier_inv_def by fastforce+

lemma launch_prog_eq:
  "launch_prog W st =
     (map (\<lambda>i. Pipe i (pipe_res W i)) [0..<nat (num_commands (command st) - 1)]
      @ map (\<lambda>i. Fork i (fork_res W i)) [0..<nat (num_commands (command st))])
     @ (map (\<lambda>i. Kill (children_pids (ExecuteCommands W st) ! i) SIGUSR1)
          [0..<nat (num_commands (command st))]
        @ close_pipes (ExecuteCommands W st))"
  by (simp add: launch_prog_def close_all_eq send_release_eq ExecuteCommands_fields)

lemma no_kill_before:
  "\<not> list_ex is_kill (map (\<lambda>i. Pipe i (f i)) xs @ map (\<lambda>i. Fork i (g i)) ys)"
  by (auto simp: list_ex_iff)

lemma no_fork_after:
  "filter is_fork (map (\<lambda>i. Kill (h i) sg) xs @ close_pipes s) = []"
  by (auto simp: close_pipes_def filter_empty_conv)

lemma forks_before:
  "filter is_fork (map (\<lambda>i. Pipe i (f i)) xs @ map (\<lambda>i. Fork i (g i)) ys) =
   map (\<lambda>i. Fork i (g i)) ys"
proof -
  have "filter is_fork (map (\<lambda>i. Pipe i (f i)) xs) = []" by (induction xs) simp_all
  moreover have "filter is_fork (map (\<lambda>i. Fork i (g i)) ys) = map (\<lambda>i. Fork i (g i)) ys"
    by (induction ys) simp_all
  ultimately show ?thesis by simp
qed

lemma setup_plain:
  "\<not> list_ex is_exec (child_setup i s)" "\<not> list_ex is_suspend (child_setup i s)"
  by (auto simp: child_setup_def close_pipes_def list_ex_iff)

lemma child_body_shape:
  "\<exists>tail. child_body W i s = child_setup i s @ Sigsuspend (UNIV - {SIGUSR1}) # tail"
  by (simp add: child_body_def)

lemma InstallHandler_blocks: "SIGUSR1 \<in> sig_mask (trace (InstallHandler s0) @ later)"
proof -
  have grow: "M \<subseteq> fold mask_effect as M" for as M
  proof (induction as arbitrary: M)
    case Nil
    show ?case by simp
  next
    case (Cons a as)
    have "M \<subseteq> mask_effect a M" by (cases a) auto
    with Cons [of "mask_effect a M"] show ?case by auto
  qed
  have "SIGUSR1 \<in> fold mask_effect (trace s0 @ [Sigprocmask_block [SIGUSR1]]) {}"
    by simp
  then have "SIGUSR1 \<in> fold mask_effect ([Sigaction SIGINT, Sigaction SIGUSR1] @ later)
      (fold mask_effect (trace s0 @ [Sigprocmask_block [SIGUSR1]]) {})"
    using grow by blast
  then show ?thesis
    by (simp add: sig_mask_def InstallHandler_def)
qed

lemma made_past_suspend:
  assumes "made p @ prog p = S @ Sigsuspend M # tail"
    and "list_ex is_exec (made p)" and "\<not> list_ex is_exec S"
  shows "\<exists>rest. made p = S @ Sigsuspend M # rest"
proof -
  from assms(1) obtain us where
    "(made p = S @ us \<and> us @ prog p = Sigsuspend M # tail)
     \<or> (made p @ us = S \<and> prog p = us @ Sigsuspend M # tail)"
    by (auto simp: append_eq_append_conv2)
  then show ?thesis
  proof
    assume h: "made p = S @ us \<and> us @ prog p = Sigsuspend M # tail"
    show ?thesis
    proof (cases us)
      case Nil
      with h assms(2,3) show ?thesis by simp
    next
      case (Cons u us')
      with h show ?thesis by auto
    qed
  next
    assume "made p @ us = S \<and> prog p = us @ Sigsuspend M # tail"
    then have "set (made p) \<subseteq> set S" by auto
    with assms(2,3) show ?thesis by (auto simp: list_ex_iff)
  qed
qed

text \<open>
  C1, as the code has it. In every run of the controller and its children, under every
  schedule: the children have \<open>SIGUSR1\<close> blocked, as the shell has from \<open>InstallHandler\<close>
  on; a child that has called \<open>execvp\<close> has before that made all calls of its own
  descriptor setup and returned from \<open>sigsuspend\<close> with the mask of everything but
  \<open>SIGUSR1\<close>, the controller has by then made all its \<open>N\<close> calls of \<open>fork\<close> and has sent
  the signal to this child. The controller's calls are the pipes, the forks, one \<open>kill\<close>
  for each recorded child, and the closes, in this order. Nothing makes a child wait
  for the other children to finish their setup.
\<close>

theorem release_after_last_fork:
  assumes "SIGUSR1 \<in> sig_mask (trace st)"
  shows "(\<forall>(q, p) \<in> set (kids (barrier_run W st sched)).
            blocked p \<and>
            (execed p \<longrightarrow>
               filter is_fork (made (ctl (barrier_run W st sched))) =
                 map (\<lambda>i. Fork i (fork_res W i)) [0..<nat (num_commands (command st))]
               \<and> filter is_fork (prog (ctl (barrier_run W st sched))) = []
               \<and> (\<exists>t. Kill t SIGUSR1 \<in> set (made (ctl (barrier_run W st sched)))
                      \<and> (t = q \<or> t \<le> 0))
               \<and> (\<exists>i rest. made p = child_setup i (ExecuteCommands W st)
                                        @ Sigsuspend (UNIV - {SIGUSR1}) # rest)))
     \<and> SIGUSR1 \<in> sig_mask (trace (InstallHandler s0) @ later)
     \<and> (\<exists>tail. child_body W k s1 = child_setup k s1 @ Sigsuspend (UNIV - {SIGUSR1}) # tail)
     \<and> launch_prog W st =
         (map (\<lambda>i. Pipe i (pipe_res W i)) [0..<nat (num_commands (command st) - 1)]
          @ map (\<lambda>i. Fork i (fork_res W i)) [0..<nat (num_commands (command st))])
         @ (map (\<lambda>i. Kill (children_pids (ExecuteCommands W st) ! i) SIGUSR1)
              [0..<nat (num_commands (command st))]
            @ close_pipes (ExecuteCommands W st))"
proof -
  let ?A = "map (\<lambda>i. Pipe i (pipe_res W i)) [0..<nat (num_commands (command st) - 1)]
          @ map (\<lambda>i. Fork i (fork_res W i)) [0..<nat (num_commands (command st))]"
  let ?B = "map (\<lambda>i. Kill (children_pids (ExecuteCommands W st) ! i) SIGUSR1)
              [0..<nat (num_commands (command st))]
            @ close_pipes (ExecuteCommands W st)"
  let ?body = "\<lambda>i. child_body W i (ExecuteCommands W st)"
  let ?s = "barrier_run W st sched"
  have "barrier_inv ?body ?A ?B
      \<lparr>ctl = \<lparr>prog = launch_prog W st, made = [], pending = False,
               blocked = (SIGUSR1 \<in> sig_mask (trace st))\<rparr>,
        kids = []\<rparr>"
    using assms by (simp add: barrier_inv_def launch_prog_eq)
  from barrier_inv_run [OF no_kill_before this, of sched]
  have inv: "barrier_inv ?body ?A ?B ?s" by (simp add: barrier_run_def)
  then have cp: "made (ctl ?s) @ prog (ctl ?s) = ?A @ ?B" by (simp add: barrier_inv_def)
  have kid: "blocked p \<and>
            (execed p \<longrightarrow>
               filter is_fork (made (ctl ?s)) =
                 map (\<lambda>i. Fork i (fork_res W i)) [0..<nat (num_commands (command st))]
               \<and> filter is_fork (prog (ctl ?s)) = []
               \<and> (\<exists>t. Kill t SIGUSR1 \<in> set (made (ctl ?s)) \<and> (t = q \<or> t \<le> 0))
               \<and> (\<exists>i rest. made p = child_setup i (ExecuteCommands W st)
                                        @ Sigsuspend (UNIV - {SIGUSR1}) # rest))"
    if mem: "(q, p) \<in> set (kids ?s)" for q p
  proof (intro conjI impI)
    note K = barrier_inv_kid [OF inv mem]
    from K(1) show "blocked p" .
    assume ex: "execed p"
    from K(2) obtain i where i: "made p @ prog p = child_body W i (ExecuteCommands W st)"
      by blast
    from child_body_shape [of W i "ExecuteCommands W st"] obtain tail where
      "child_body W i (ExecuteCommands W st) =
         child_setup i (ExecuteCommands W st) @ Sigsuspend (UNIV - {SIGUSR1}) # tail"
      by blast
    with i have "made p @ prog p =
         child_setup i (ExecuteCommands W st) @ Sigsuspend (UNIV - {SIGUSR1}) # tail"
      by simp
    from made_past_suspend [OF this] ex setup_plain(1)
    obtain rest where mp: "made p = child_setup i (ExecuteCommands W st)
                                        @ Sigsuspend (UNIV - {SIGUSR1}) # rest"
      by (auto simp: execed_def)
    then show "\<exists>i rest. made p = child_setup i (ExecuteCommands W st)
                                        @ Sigsuspend (UNIV - {SIGUSR1}) # rest"
      by blast
    from mp have "pending p \<or> list_ex is_suspend (made p)" by simp
    from K(3) [OF this] obtain us where us: "made (ctl ?s) = ?A @ us"
      and k: "\<exists>t. Kill t SIGUSR1 \<in> set (made (ctl ?s)) \<and> (t = q \<or> t \<le> 0)"
      by blast
    from k show "\<exists>t. Kill t SIGUSR1 \<in> set (made (ctl ?s)) \<and> (t = q \<or> t \<le> 0)" .
    from us cp have B: "us @ prog (ctl ?s) = ?B" by simp
    have "filter is_fork (us @ prog (ctl ?s)) = []"
      unfolding B by (rule no_fork_after)
    then have nf: "filter is_fork us = []" "filter is_fork (prog (ctl ?s)) = []" by simp_all
    from nf(2) show "filter is_fork (prog (ctl ?s)) = []" .
    have "filter is_fork (made (ctl ?s)) = filter is_fork ?A @ filter is_fork us"
      unfolding us by simp
    then show "filter is_fork (made (ctl ?s)) =
                 map (\<lambda>i. Fork i (fork_res W i)) [0..<nat (num_commands (command st))]"
      using nf(1) forks_before [of "pipe_res W" _ "fork_res W"] by simp
  qed
  show ?thesis
  proof (intro conjI)
    show "\<forall>(q, p) \<in> set (kids ?s).
            blocked p \<and>
            (execed p \<longrightarrow>
               filter is_fork (made (ctl ?s)) =
                 map (\<lambda>i. Fork i (fork_res W i)) [0..<nat (num_commands (command st))]
               \<and> filter is_fork (prog (ctl ?s)) = []
               \<and> (\<exists>t. Kill t SIGUSR1 \<in> set (made (ctl ?s)) \<and> (t = q \<or> t \<le> 0))
               \<and> (\<exists>i rest. made p = child_setup i (ExecuteCommands W st)
                                        @ Sigsuspend (UNIV - {SIGUSR1}) # rest))"
      using kid by blast
    show "SIGUSR1 \<in> sig_mask (trace (InstallHandler s0) @ later)"
      by (rule InstallHandler_blocks)
    show "\<exists>tail. child_body W k s1 = child_setup k s1 @ Sigsuspend (UNIV - {SIGUSR1}) # tail"
      by (rule child_body_shape)
    show "launch_prog W st = ?A @ ?B" by (rule launch_prog_eq)
  qed
qed

lemma started_prog:
  "launch_prog no_children started =
     [Pipe 0 (Some (3, 4)), Fork 0 100, Fork 1 101, Kill 100 SIGUSR1, Kill 101 SIGUSR1,
      Close 3, Close 4]"
  by (simp add: launch_prog_eq started_def false_true_def no_children_def close_pipes_def
        ExecuteCommands_def pipe_step_def fork_step_def InstallHandler_def shell0_def
        emit_def numeral_eq_Suc Let_def)

lemma started_bodies:
  "child_body no_children 0 (ExecuteCommands no_children started) =
     [Dup2 4 1, Close 3, Close 4, Sigsuspend (UNIV - {SIGUSR1}), Execvp ''false'' [''false'']]"
  "child_body no_children (Suc 0) (ExecuteCommands no_children started) =
     [Dup2 3 0, Close 3, Close 4, Sigsuspend (UNIV - {SIGUSR1}), Execvp ''true'' [''true'']]"
  by (simp_all add: child_body_def child_setup_def started_def false_true_def no_children_def
        close_pipes_def ExecuteCommands_def pipe_step_def fork_step_def InstallHandler_def
        shell0_def emit_def numeral_eq_Suc Let_def)

lemma started_mask: "SIGUSR1 \<in> sig_mask (trace started)"
  by (simp add: started_def sig_mask_def InstallHandler_def shell0_def emit_def)

lemma early_release_state:
  "barrier_run no_children started early_release =
     \<lparr>ctl = \<lparr>prog = [Kill 101 SIGUSR1, Close 3, Close 4],
              made = [Pipe 0 (Some (3, 4)), Fork 0 100, Fork 1 101, Kill 100 SIGUSR1],
              pending = False, blocked = True\<rparr>,
      kids = [(100, \<lparr>prog = [],
                      made = [Dup2 4 1, Close 3, Close 4, Sigsuspend (UNIV - {SIGUSR1}),
                              Execvp ''false'' [''false'']],
                      pending = False, blocked = True\<rparr>),
              (101, \<lparr>prog = [Dup2 3 0, Close 3, Close 4, Sigsuspend (UNIV - {SIGUSR1}),
                              Execvp ''true'' [''true'']],
                      made = [], pending = False, blocked = True\<rparr>)]\<rparr>"
  by (simp add: barrier_run_def early_release_def started_prog started_bodies started_mask
        deliver_def kid_step_def)

text \<open>
  The pipeline \<open>false | true\<close> under a schedule in which the controller forks both
  children and signals the first, and the first child then runs to its \<open>execvp\<close>: the
  second child has made no call yet, so it has neither completed its descriptor setup
  nor reached its suspend point.
\<close>

theorem released_before_sibling_ready:
  "progress (barrier_run no_children started early_release) =
     [(100, True, True), (101, False, False)]"
  by (simp add: early_release_state progress_def execed_def at_suspend_def)

theorem release_after_last_fork_witness:
  "SIGUSR1 \<in> sig_mask (trace started)
   \<and> progress (barrier_run no_children started early_release) ! 0 = (100, True, True)
   \<and> filter is_fork (made (ctl (barrier_run no_children started early_release))) =
        [Fork 0 100, Fork 1 101]
   \<and> filter is_fork (prog (ctl (barrier_run no_children started early_release))) = []"
proof -
  let ?s = "barrier_run no_children started early_release"
  let ?p = "\<lparr>prog = [],
             made = [Dup2 4 1, Close 3, Close 4, Sigsuspend (UNIV - {SIGUSR1}),
                     Execvp ''false'' [''false'']],
             pending = False, blocked = True\<rparr>"
  have m: "(100, ?p) \<in> set (kids ?s)" by (simp add: early_release_state)
  have e: "execed ?p" by (simp add: execed_def)
  have pr: "progress ?s ! 0 = (100, True, True)"
    by (simp add: early_release_state progress_def execed_def at_suspend_def)
  from release_after_last_fork [OF started_mask, of no_children early_release]
  have "\<forall>(q, p) \<in> set (kids ?s).
            blocked p \<and>
            (execed p \<longrightarrow>
               filter is_fork (made (ctl ?s)) =
                 map (\<lambda>i. Fork i (fork_res no_children i))
                   [0..<nat (num_commands (command started))]
               \<and> filter is_fork (prog (ctl ?s)) = []
               \<and> (\<exists>t. Kill t SIGUSR1 \<in> set (made (ctl ?s)) \<and> (t = q \<or> t \<le> 0))
               \<and> (\<exists>i rest. made p = child_setup i (ExecuteCommands no_children started)
                                        @ Sigsuspend (UNIV - {SIGUSR1}) # rest))"
    by blast
  with m e have "filter is_fork (made (ctl ?s)) =
                 map (\<lambda>i. Fork i (fork_res no_children i))
                   [0..<nat (num_commands (command started))]"
    and "filter is_fork (prog (ctl ?s)) = []"
    by blast+
  then have "filter is_fork (made (ctl ?s)) = [Fork 0 100, Fork 1 101]"
    and "filter is_fork (prog (ctl ?s)) = []"
    by (simp_all add: started_def false_true_def no_children_def numeral_eq_Suc)
  with started_mask pr show ?thesis by blast
qed

end
